theory Spec2Isabelle
  imports Complex_Main
begin

section \<open>The task executor of \<open>common/thread_pool.py\<close>\<close>

text \<open>
  The development embeds the class \<open>MultiThreadProcessorWithResult\<close> and its
  \<open>TaskResult\<close> records. Three things of the Python run-time are made explicit:
  \<^item> objects live in a store: \<open>TaskResult\<close> objects and dictionaries are reached through
    addresses, so that two references to one object are visible as such;
  \<^item> time is a rational number of seconds; \<open>time.time()\<close> reads the clock of the running
    thread, \<open>time.sleep\<close> and a call of the work function advance it;
  \<^item> what the run-time decides (when a pool thread picks a task up, when the main thread
    begins to collect, how a set of futures is iterated) is a parameter, the
    \<open>schedule\<close>.
  Logging is left out: it changes no state the claims speak about.
\<close>

subsection \<open>Data\<close>

text \<open>\<open>class TaskStatus\<close>: six distinct string constants.\<close>

datatype TaskStatus = PENDING | RUNNING | COMPLETED | FAILED | TIMEOUT | RETRYING

text \<open>
  The exceptions that occur: the built-in \<open>TimeoutError\<close> (the class named by
  \<open>except TimeoutError\<close> in \<open>run\<close>), \<open>ValueError\<close> (raised by
  \<open>ThreadPoolExecutor\<close> for \<open>max_workers <= 0\<close>), \<open>KeyError\<close> of a dictionary lookup
  with an integer key, and any other subclass of \<open>Exception\<close>. Each but \<open>KeyError\<close>
  carries its message, the value of \<open>str(e)\<close>. (From Python 3.11 on, the
  \<open>TimeoutError\<close> that \<open>Future.result\<close> raises is this built-in class too.) An
  exception outside \<open>Exception\<close>, such as \<open>KeyboardInterrupt\<close>, is not considered: a work
  function signals its failure by an \<open>Exception\<close>.
\<close>

datatype exn = TimeoutError string | ValueError string | KeyError nat | Exception string

fun show_nat :: "nat \<Rightarrow> string" where
  "show_nat n =
     (if n < 10 then [char_of (48 + n)]
      else show_nat (n div 10) @ [char_of (48 + n mod 10)])"

declare show_nat.simps [simp del]

text \<open>\<open>str(e)\<close>; for a \<open>KeyError\<close> it is the \<open>repr\<close> of the key.\<close>

fun str_exn :: "exn \<Rightarrow> string" where
  "str_exn (TimeoutError m) = m"
| "str_exn (ValueError m) = m"
| "str_exn (KeyError k) = show_nat k"
| "str_exn (Exception m) = m"

text \<open>
  \<open>class TaskResult\<close>. The field \<open>result\<close> is an \<open>Optional[R]\<close>: \<open>None\<close> is Python's
  \<open>None\<close>, which is also a value a work function may return.
\<close>

record ('t, 'r) TaskResult =
  task_id :: nat
  original_task :: 't
  result :: "'r option"
  status :: TaskStatus
  error_message :: "string option"
  start_time :: "rat option"
  end_time :: "rat option"
  retry_count :: nat

text \<open>\<open>TaskResult.__init__(task_id, original_task)\<close>\<close>

definition TaskResult_init :: "nat \<Rightarrow> 't \<Rightarrow> ('t, 'r) TaskResult" where
  "TaskResult_init i task =
     \<lparr>task_id = i, original_task = task, result = None, status = PENDING,
      error_message = None, start_time = None, end_time = None, retry_count = 0\<rparr>"

text \<open>
  What a thread does to a record object, or while it works on one, that another thread
  or the caller can observe: an assignment to a field of the record (with the contents
  of the record after it), a call of the work function (with the number of the
  attempt) and a \<open>time.sleep\<close> (with its argument).
\<close>

datatype ('t, 'r) event = is_Write: Write "('t, 'r) TaskResult" | Invoke nat | Sleep rat

text \<open>
  The store. Addresses are handed out by a counter, so a new object never shares its
  address with an older one. A dictionary \<open>Dict[int, TaskResult]\<close> holds its items in
  insertion order, each value the address of a record. The \<open>trace\<close> is no part of the
  program's state: it keeps the creation of every record and every event of the threads
  of \<open>run\<close>, each with the address of the record it belongs to, in the order in which
  they happen, so that a statement about every moment of a run can be made about the
  store the run leaves.
\<close>

type_synonym addr = nat

type_synonym tdict = "(nat \<times> addr) list"

record ('t, 'r) heap =
  records :: "addr \<Rightarrow> ('t, 'r) TaskResult"
  dicts :: "addr \<Rightarrow> tdict"
  next_addr :: addr
  trace :: "(addr \<times> ('t, 'r) event) list"

definition new_record :: "('t, 'r) TaskResult \<Rightarrow> ('t, 'r) heap \<Rightarrow> addr \<times> ('t, 'r) heap" where
  "new_record r h =
     (next_addr h,
      h\<lparr>records := (records h)(next_addr h := r), next_addr := Suc (next_addr h),
        trace := trace h @ [(next_addr h, Write r)]\<rparr>)"

definition new_dict :: "tdict \<Rightarrow> ('t, 'r) heap \<Rightarrow> addr \<times> ('t, 'r) heap" where
  "new_dict d h =
     (next_addr h, h\<lparr>dicts := (dicts h)(next_addr h := d), next_addr := Suc (next_addr h)\<rparr>)"

text \<open>\<open>d[k]\<close>, which raises \<open>KeyError\<close> for a missing key.\<close>

definition getitem :: "tdict \<Rightarrow> nat \<Rightarrow> exn + addr" where
  "getitem d k = (case map_of d k of None \<Rightarrow> Inl (KeyError k) | Some a \<Rightarrow> Inr a)"

text \<open>
  The processor object: the fields that \<open>__init__\<close> sets, but the lock.
  \<open>task_results\<close> is a reference to a dictionary in the store.
\<close>

record processor =
  max_workers :: int
  retry :: int
  timeout :: rat
  task_results :: addr
  total_tasks :: nat
  completed_tasks :: nat

subsection \<open>Threads, the work function and futures\<close>

text \<open>
  A thread at work on one record object: the contents of the object, the thread's clock
  and, in program order, the events so far. \<open>thread_on\<close> starts such a piece of work at
  the record at an address, \<open>commit\<close> ends it: the store then holds what the thread has
  made of the record, and the trace its events.
\<close>

record ('t, 'r) thread =
  obj :: "('t, 'r) TaskResult"
  clock :: rat
  events :: "('t, 'r) event list"

definition thread_on :: "addr \<Rightarrow> rat \<Rightarrow> ('t, 'r) heap \<Rightarrow> ('t, 'r) thread" where
  "thread_on a t h = \<lparr>obj = records h a, clock = t, events = []\<rparr>"

definition commit :: "addr \<Rightarrow> ('t, 'r) thread \<Rightarrow> ('t, 'r) heap \<Rightarrow> ('t, 'r) heap" where
  "commit a th h =
     h\<lparr>records := (records h)(a := obj th), trace := trace h @ map (Pair a) (events th)\<rparr>"

definition assign ::
  "(('t, 'r) TaskResult \<Rightarrow> ('t, 'r) TaskResult) \<Rightarrow> ('t, 'r) thread \<Rightarrow> ('t, 'r) thread" where
  "assign f th = th\<lparr>obj := f (obj th), events := events th @ [Write (f (obj th))]\<rparr>"

definition sleep :: "rat \<Rightarrow> ('t, 'r) thread \<Rightarrow> ('t, 'r) thread" where
  "sleep d th = th\<lparr>clock := clock th + d, events := events th @ [Sleep d]\<rparr>"

text \<open>
  One call \<open>self.process(task)\<close> takes some time and then returns a value or raises an
  exception. The work function is a parameter: \<open>proc i a task\<close> is what the call does
  that the worker of task \<open>i\<close> makes in its attempt \<open>a\<close>. (The same callable may behave
  differently from call to call, as \<open>task_with_error\<close> does.) Every call is taken to
  come back after a finite time.
\<close>

datatype 'r attempt = Returns rat "'r option" | Raises rat exn

type_synonym ('t, 'r) process = "nat \<Rightarrow> nat \<Rightarrow> 't \<Rightarrow> 'r attempt"

definition invoke :: "nat \<Rightarrow> rat \<Rightarrow> ('t, 'r) thread \<Rightarrow> ('t, 'r) thread" where
  "invoke a d th = th\<lparr>clock := clock th + d, events := events th @ [Invoke a]\<rparr>"

text \<open>
  The loop \<open>for attempt in range(self.retry + 1)\<close> of \<open>_run_with_retry\<close>, over the
  attempts left. When the range is exhausted (only an empty range can be: the last
  attempt returns or raises), the method falls off its end and returns \<open>None\<close>.
\<close>

fun retry_loop ::
  "int \<Rightarrow> (nat \<Rightarrow> 't \<Rightarrow> 'r attempt) \<Rightarrow> 't \<Rightarrow> nat list \<Rightarrow> ('t, 'r) thread
    \<Rightarrow> ('t, 'r) thread \<times> (exn + 'r option)" where
  "retry_loop R pr task [] th = (th, Inr None)"
| "retry_loop R pr task (attempt # rest) th =
     (let th1 = (if attempt > 0
                 then assign (\<lambda>r. r\<lparr>retry_count := attempt\<rparr>)
                        (assign (\<lambda>r. r\<lparr>status := RETRYING\<rparr>) th)
                 else th)
      in case pr attempt task of
           Returns d v \<Rightarrow> (invoke attempt d th1, Inr v)
         | Raises d e \<Rightarrow>
             if int attempt < R
             then retry_loop R pr task rest
                    (sleep (1 / 10 * (of_nat attempt + 1)) (invoke attempt d th1))
             else (invoke attempt d th1, Inl e))"

text \<open>
  A future of the pool: when the submitted call has finished (it \<^emph>\<open>settles\<close>), and with
  what.
\<close>

record 'r future =
  settled_at :: rat
  outcome :: "exn + 'r option"

text \<open>
  \<open>_run_with_retry(task_id)\<close> (the id is \<open>tid\<close> here), in two parts. The first is
  the body after the lookup, on the record found: it sets \<open>start_time\<close> and the status
  \<open>RUNNING\<close> and enters the loop. The second is the whole call, run by a pool thread
  that picks the task up at time \<open>t\<close>. The exception of a failed lookup, like the one
  the loop raises at last, ends the submitted call and is kept by its future.
\<close>

definition retry_body ::
  "processor \<Rightarrow> ('t, 'r) process \<Rightarrow> nat \<Rightarrow> ('t, 'r) thread
    \<Rightarrow> ('t, 'r) thread \<times> (exn + 'r option)" where
  "retry_body self proc tid task_result =
     (let task = original_task (obj task_result);
          th1 = assign (\<lambda>r. r\<lparr>start_time := Some (clock task_result)\<rparr>) task_result;
          th2 = assign (\<lambda>r. r\<lparr>status := RUNNING\<rparr>) th1
      in retry_loop (retry self) (proc tid) task [0..<nat (retry self + 1)] th2)"

definition run_with_retry ::
  "processor \<Rightarrow> ('t, 'r) process \<Rightarrow> rat \<Rightarrow> nat \<Rightarrow> ('t, 'r) heap
    \<Rightarrow> 'r future \<times> ('t, 'r) heap" where
  "run_with_retry self proc t tid h =
     (case getitem (dicts h (task_results self)) tid of
        Inl e \<Rightarrow> (\<lparr>settled_at = t, outcome = Inl e\<rparr>, h)
      | Inr a \<Rightarrow>
          (let (th, out) = retry_body self proc tid (thread_on a t h)
           in (\<lparr>settled_at = clock th, outcome = out\<rparr>, commit a th h)))"

text \<open>
  \<open>Future.result(timeout)\<close>, called at time \<open>now\<close>: a finished future answers at once;
  otherwise the caller waits, at most \<open>timeout\<close> seconds, and a future that has not
  settled by then makes the call raise \<open>TimeoutError()\<close>. The second component is the
  caller's clock after the call.
\<close>

definition future_result :: "'r future \<Rightarrow> rat \<Rightarrow> rat \<Rightarrow> (exn + 'r option) \<times> rat" where
  "future_result fut now tmo =
     (if settled_at fut \<le> now then (outcome fut, now)
      else if settled_at fut \<le> now + tmo then (outcome fut, settled_at fut)
      else (Inl (TimeoutError []), now + tmo))"

text \<open>
  The message that \<open>run\<close> stores for a timeout is a fixed literal of six Chinese
  characters (U+4EFB U+52A1 U+6267 U+884C U+8D85 U+65F6, \<open>task execution timed
  out\<close>); it is kept here as a constant in English.
\<close>

definition timeout_message :: string where
  "timeout_message = ''task execution timed out''"

text \<open>
  The body of the loop of \<open>run\<close> for one future, on the record of its task: the
  \<open>try\<close> with its two handlers and its \<open>finally\<close> (but for the counter, which is the
  processor's). The second component is what is appended to \<open>results\<close>.
\<close>

definition collect ::
  "exn + 'r option \<Rightarrow> ('t, 'r) thread \<Rightarrow> ('t, 'r) thread \<times> 'r option" where
  "collect res task_result =
     (let (th, x) =
        (case res of
           Inr v \<Rightarrow>
             (assign (\<lambda>r. r\<lparr>status := COMPLETED\<rparr>)
                (assign (\<lambda>r. r\<lparr>result := v\<rparr>) task_result), v)
         | Inl (TimeoutError m) \<Rightarrow>
             (assign (\<lambda>r. r\<lparr>error_message := Some timeout_message\<rparr>)
                (assign (\<lambda>r. r\<lparr>status := TIMEOUT\<rparr>) task_result), None)
         | Inl e \<Rightarrow>
             (assign (\<lambda>r. r\<lparr>error_message := Some (str_exn e)\<rparr>)
                (assign (\<lambda>r. r\<lparr>status := FAILED\<rparr>) task_result), None))
      in (assign (\<lambda>r. r\<lparr>end_time := Some (clock th)\<rparr>) th, x))"

text \<open>
  What the pool decides: \<open>started i\<close> is the time at which a pool thread begins the call
  submitted for task \<open>i\<close>; \<open>order\<close> lists the task ids of the futures in the order in
  which the set that \<open>as_completed\<close> makes of them is iterated (an order that depends on
  where the objects lie in memory); \<open>collecting_at\<close> is the main thread's clock when it
  enters the loop over \<open>as_completed\<close>.
\<close>

record schedule =
  started :: "nat \<Rightarrow> rat"
  order :: "nat list"
  collecting_at :: rat

text \<open>
  \<open>as_completed(future_to_task_id)\<close>, called at time \<open>now\<close>, hands out keys of the
  dictionary, here with their values. It makes a set \<open>fs\<close> of the futures (here each
  future submitted for an id of the order, in that order). The futures of the set that
  have finished when it is called are handed out first, as the set is iterated; the
  others are handed out as they finish, the one that settles earlier first (two that
  settle at the same time, as the set is iterated).
\<close>

definition as_completed ::
  "rat \<Rightarrow> nat list \<Rightarrow> ('r future \<times> nat) list \<Rightarrow> ('r future \<times> nat) list" where
  "as_completed now ord future_to_task_id =
     (let fs = concat (map (\<lambda>i. filter (\<lambda>(fut, tid). tid = i) future_to_task_id) ord);
          finished = filter (\<lambda>(fut, tid). settled_at fut \<le> now) fs;
          pending = filter (\<lambda>(fut, tid). \<not> settled_at fut \<le> now) fs
      in finished @ sort_key (\<lambda>(fut, tid). settled_at fut) pending)"

text \<open>
  The state of the main thread inside \<open>run\<close>: the processor, the store, its clock and
  the list \<open>results\<close>.
\<close>

record ('t, 'r) main =
  m_self :: processor
  m_heap :: "('t, 'r) heap"
  m_now :: rat
  m_results :: "'r option list"

text \<open>
  The loop \<open>for future in as_completed(\<dots>)\<close>. A future is handed out once it has
  finished: until then the main thread is blocked, so its clock is then at least the
  time at which the future settled. An exception that leaves the loop (a failed lookup
  of the record) is returned with the state reached.
\<close>

fun collect_loop ::
  "('r future \<times> nat) list \<Rightarrow> ('t, 'r) main \<Rightarrow> exn option \<times> ('t, 'r) main" where
  "collect_loop [] m = (None, m)"
| "collect_loop ((fut, tid) # rest) m =
     (let m1 = m\<lparr>m_now := max (m_now m) (settled_at fut)\<rparr> in
      case getitem (dicts (m_heap m1) (task_results (m_self m1))) tid of
        Inl e \<Rightarrow> (Some e, m1)
      | Inr a \<Rightarrow>
          (let (res, now) = future_result fut (m_now m1) (timeout (m_self m1));
               (th, x) = collect res (thread_on a now (m_heap m1))
           in collect_loop rest
                \<lparr>m_self = (m_self m1)\<lparr>completed_tasks := completed_tasks (m_self m1) + 1\<rparr>,
                 m_heap = commit a th (m_heap m1),
                 m_now = clock th,
                 m_results = m_results m1 @ [x]\<rparr>))"

subsection \<open>The processor\<close>

text \<open>
  \<open>__init__(max_workers, retry, timeout)\<close>. It stores its arguments and makes an empty
  dictionary; no statement of it raises.
\<close>

definition init ::
  "int \<Rightarrow> int \<Rightarrow> rat \<Rightarrow> ('t, 'r) heap \<Rightarrow> exn + (processor \<times> ('t, 'r) heap)" where
  "init mw r t h =
     (let (d, h1) = new_dict [] h
      in Inr (\<lparr>max_workers = mw, retry = r, timeout = t, task_results = d,
               total_tasks = 0, completed_tasks = 0\<rparr>, h1))"

text \<open>The comprehension \<open>{i: TaskResult(i, task) for i, task in enumerate(tasks)}\<close>.\<close>

fun build_task_results ::
  "(nat \<times> 't) list \<Rightarrow> ('t, 'r) heap \<Rightarrow> tdict \<times> ('t, 'r) heap" where
  "build_task_results [] h = ([], h)"
| "build_task_results ((i, task) # rest) h =
     (let (a, h1) = new_record (TaskResult_init i task) h;
          (d, h2) = build_task_results rest h1
      in ((i, a) # d, h2))"

text \<open>
  The comprehension \<open>{executor.submit(self._run_with_retry, task_id): task_id \<dots>}\<close>,
  as the list of its items. The submitted calls are run here one after the other, in
  the order of submission: the call for a task writes to the record of that task only,
  and reads nothing another call writes, so the store they leave does not depend on
  how the pool interleaves them.
\<close>

fun submit_all ::
  "processor \<Rightarrow> ('t, 'r) process \<Rightarrow> (nat \<Rightarrow> rat) \<Rightarrow> (nat \<times> 't) list \<Rightarrow> ('t, 'r) heap
    \<Rightarrow> ('r future \<times> nat) list \<times> ('t, 'r) heap" where
  "submit_all self proc st [] h = ([], h)"
| "submit_all self proc st ((tid, task) # rest) h =
     (let (fut, h1) = run_with_retry self proc (st tid) tid h;
          (futs, h2) = submit_all self proc st rest h1
      in ((fut, tid) # futs, h2))"

text \<open>
  \<open>run(tasks)\<close>. \<open>ThreadPoolExecutor(max_workers=\<dots>)\<close> raises \<open>ValueError\<close> unless
  \<open>max_workers\<close> is positive; the \<open>with\<close> statement leaves when every submitted call has
  finished. The result is what \<open>run\<close> returns or raises, with the processor and the
  store it leaves.
\<close>

definition run ::
  "('t, 'r) process \<Rightarrow> schedule \<Rightarrow> 't list \<Rightarrow> processor \<Rightarrow> ('t, 'r) heap
    \<Rightarrow> (exn + 'r option list) \<times> processor \<times> ('t, 'r) heap" where
  "run proc sch tasks self h =
     (let self1 = self\<lparr>total_tasks := length tasks, completed_tasks := 0\<rparr>;
          (d, h1) = build_task_results (enumerate 0 tasks) h;
          (a, h2) = new_dict d h1;
          self2 = self1\<lparr>task_results := a\<rparr>
      in if max_workers self2 \<le> 0
         then (Inl (ValueError ''max_workers must be greater than 0''), self2, h2)
         else
           (let (future_to_task_id, h3) =
                  submit_all self2 proc (started sch) (enumerate 0 tasks) h2;
                (err, m) =
                  collect_loop (as_completed (collecting_at sch) (order sch) future_to_task_id)
                    \<lparr>m_self = self2, m_heap = h3, m_now = collecting_at sch, m_results = []\<rparr>
            in (case err of None \<Rightarrow> Inr (m_results m) | Some e \<Rightarrow> Inl e, m_self m, m_heap m)))"

text \<open>\<open>get_task_status()\<close>: \<open>self.task_results.copy()\<close>, a new dictionary with the same items.\<close>

definition get_task_status :: "processor \<Rightarrow> ('t, 'r) heap \<Rightarrow> addr \<times> ('t, 'r) heap" where
  "get_task_status self h = new_dict (dicts h (task_results self)) h"

subsection \<open>Statistics\<close>

text \<open>
  Floats with the infinities, for \<open>float('inf')\<close>. Only a finite number is ever the
  left operand of the subtraction, so no NaN arises.
\<close>

datatype pyfloat = Fin rat | PosInf | NegInf

fun fmin :: "pyfloat \<Rightarrow> pyfloat \<Rightarrow> pyfloat" where
  "fmin NegInf y = NegInf"
| "fmin x NegInf = NegInf"
| "fmin PosInf y = y"
| "fmin x PosInf = x"
| "fmin (Fin a) (Fin b) = Fin (min a b)"

fun fsub :: "rat \<Rightarrow> pyfloat \<Rightarrow> pyfloat" where
  "fsub a (Fin b) = Fin (a - b)"
| "fsub a PosInf = NegInf"
| "fsub a NegInf = PosInf"

text \<open>
  \<open>r.end_time or 0\<close> and \<open>r.start_time or float('inf')\<close>: \<open>None\<close> and \<open>0.0\<close> are
  both false.
\<close>

definition end_or_zero :: "('t, 'r) TaskResult \<Rightarrow> rat" where
  "end_or_zero r = (case end_time r of None \<Rightarrow> 0 | Some t \<Rightarrow> if t = 0 then 0 else t)"

definition start_or_inf :: "('t, 'r) TaskResult \<Rightarrow> pyfloat" where
  "start_or_inf r =
     (case start_time r of None \<Rightarrow> PosInf | Some t \<Rightarrow> if t = 0 then PosInf else Fin t)"

text \<open>\<open>d.get(k, default)\<close> and \<open>d[k] = v\<close> on a dictionary in insertion order.\<close>

definition dict_get :: "('k \<times> 'v) list \<Rightarrow> 'k \<Rightarrow> 'v \<Rightarrow> 'v" where
  "dict_get d k dflt = (case map_of d k of None \<Rightarrow> dflt | Some v \<Rightarrow> v)"

fun dict_set :: "('k \<times> 'v) list \<Rightarrow> 'k \<Rightarrow> 'v \<Rightarrow> ('k \<times> 'v) list" where
  "dict_set [] k v = [(k, v)]"
| "dict_set ((k', v') # d) k v = (if k' = k then (k, v) # d else (k', v') # dict_set d k v)"

text \<open>
  What \<open>get_statistics()\<close> returns: the dictionary with the one key \<open>status\<close> when there
  are no records, else the one with the four keys: the number of tasks, the number
  completed, the counts by status and the total time.
\<close>

datatype statistics =
  NotExecuted
| Statistics (stat_total: nat) (stat_completed: nat)
    (stat_statuses: "(TaskStatus \<times> nat) list") (stat_total_time: pyfloat)

definition get_statistics :: "processor \<Rightarrow> ('t, 'r) heap \<Rightarrow> statistics" where
  "get_statistics self h =
     (case map (\<lambda>(k, a). records h a) (dicts h (task_results self)) of
        [] \<Rightarrow> NotExecuted
      | r # rs \<Rightarrow>
          (let statuses =
                 fold (\<lambda>res st. dict_set st (status res) (dict_get st (status res) 0 + 1))
                   (r # rs) [];
               total_time =
                 fsub (fold max (map end_or_zero rs) (end_or_zero r))
                   (fold fmin (map start_or_inf rs) (start_or_inf r))
           in Statistics (total_tasks self) (completed_tasks self) statuses
                (if total_time = PosInf then Fin 0 else total_time)))"

subsection \<open>Notions used in the statements\<close>

text \<open>
  The record of a task, as the caller of \<open>get_task_status()[i]\<close> finds it: the contents of
  the object that the processor's dictionary holds under the id, if it holds one.
\<close>

definition task_record :: "processor \<Rightarrow> ('t, 'r) heap \<Rightarrow> nat \<Rightarrow> ('t, 'r) TaskResult option" where
  "task_record self h i = map_option (records h) (map_of (dicts h (task_results self)) i)"

text \<open>
  The pool thread of task \<open>i\<close>, at work on the new record of the task from the time the
  schedule gives.
\<close>

definition worker ::
  "processor \<Rightarrow> ('t, 'r) process \<Rightarrow> schedule \<Rightarrow> nat \<Rightarrow> 't \<Rightarrow> ('t, 'r) thread \<times> (exn + 'r option)" where
  "worker self proc sch i task =
     retry_body self proc i \<lparr>obj = TaskResult_init i task, clock = started sch i, events = []\<rparr>"

text \<open>
  The time at which the call submitted for task \<open>i\<close> settles, and the task ids in the
  order in which \<open>as_completed\<close> hands their futures out: \<open>hand_out\<close> is what
  \<open>as_completed\<close> does, on ids with their settling times.
\<close>

definition settles ::
  "processor \<Rightarrow> ('t, 'r) process \<Rightarrow> schedule \<Rightarrow> 't list \<Rightarrow> nat \<Rightarrow> rat" where
  "settles self proc sch tasks i = clock (fst (worker self proc sch i (tasks ! i)))"

definition hand_out :: "rat \<Rightarrow> (nat \<Rightarrow> rat) \<Rightarrow> nat list \<Rightarrow> nat list" where
  "hand_out now s ord =
     filter (\<lambda>i. s i \<le> now) ord @ sort_key s (filter (\<lambda>i. \<not> s i \<le> now) ord)"

definition handed_out ::
  "processor \<Rightarrow> ('t, 'r) process \<Rightarrow> schedule \<Rightarrow> 't list \<Rightarrow> nat list" where
  "handed_out self proc sch tasks =
     hand_out (collecting_at sch) (settles self proc sch tasks) (order sch)"

text \<open>
  What \<open>collect\<close> makes of the result of a future: the element of the output, the status
  and the message.
\<close>

definition output_of :: "exn + 'r option \<Rightarrow> 'r option" where
  "output_of res = (case res of Inr v \<Rightarrow> v | Inl e \<Rightarrow> None)"

definition status_of :: "exn + 'r option \<Rightarrow> TaskStatus" where
  "status_of res =
     (case res of Inr v \<Rightarrow> COMPLETED | Inl (TimeoutError m) \<Rightarrow> TIMEOUT | Inl e \<Rightarrow> FAILED)"

definition message_of :: "exn + 'r option \<Rightarrow> string option \<Rightarrow> string option" where
  "message_of res old =
     (case res of Inr v \<Rightarrow> old | Inl (TimeoutError m) \<Rightarrow> Some timeout_message
      | Inl e \<Rightarrow> Some (str_exn e))"

text \<open>Every assignment among the events leaves a retry count of at most \<open>B\<close>.\<close>

definition writes_below :: "nat \<Rightarrow> ('t, 'r) event list \<Rightarrow> bool" where
  "writes_below B evs =
     list_all (\<lambda>e. case e of Write r \<Rightarrow> retry_count r \<le> B | _ \<Rightarrow> True) evs"

text \<open>The time that a call of the work function takes.\<close>

definition duration :: "'r attempt \<Rightarrow> rat" where
  "duration x = (case x of Returns d v \<Rightarrow> d | Raises d e \<Rightarrow> d)"

subsection \<open>Example inputs\<close>

text \<open>
  \<open>MyTaskProcessor.process\<close>: \<open>return task()\<close>. A task is a callable; what its calls do,
  one after the other, is the task itself: \<open>task a\<close> is its call in attempt \<open>a\<close>.
\<close>

definition MyTaskProcessor_process :: "(nat \<Rightarrow> 'r attempt, 'r) process" where
  "MyTaskProcessor_process i a task = task a"

text \<open>
  A store with no object in it (every address holds a filler), the processor that
  \<open>__init__\<close> makes in it and the store that \<open>__init__\<close> leaves.
\<close>

definition empty_heap :: "'t \<Rightarrow> ('t, 'r) heap" where
  "empty_heap filler =
     \<lparr>records = (\<lambda>a. TaskResult_init 0 filler), dicts = (\<lambda>a. []), next_addr = 0, trace = []\<rparr>"

definition new_processor :: "int \<Rightarrow> int \<Rightarrow> rat \<Rightarrow> processor" where
  "new_processor mw r t =
     \<lparr>max_workers = mw, retry = r, timeout = t, task_results = 0,
      total_tasks = 0, completed_tasks = 0\<rparr>"

definition started_heap :: "'t \<Rightarrow> ('t, 'r) heap" where
  "started_heap filler = snd (new_dict [] (empty_heap filler))"

text \<open>
  A schedule in which every task is picked up at time 100 (a pool with a thread for
  each), and the main thread starts to collect at that time.
\<close>

definition at_once :: "nat list \<Rightarrow> schedule" where
  "at_once ord = \<lparr>started = (\<lambda>i. 100), order = ord, collecting_at = 100\<rparr>"

text \<open>
  Tasks: one that takes half a second and succeeds (as \<open>task_process\<close> does), one that
  fails twice and then succeeds.
\<close>

definition quick :: "nat \<Rightarrow> nat attempt" where
  "quick a = Returns (1 / 2) (Some 1)"

definition fails_twice :: "nat \<Rightarrow> nat attempt" where
  "fails_twice a =
     (if a < 2 then Raises (1 / 2) (ValueError ''random error'') else Returns 1 (Some 7))"

text \<open>
  More tasks: one that fails in every attempt, one that fails with a \<open>TimeoutError\<close> of
  its own (a read that timed out), one that takes a second and succeeds, one that
  returns \<open>None\<close>.
\<close>

definition always_fails :: "nat \<Rightarrow> nat attempt" where
  "always_fails a = Raises (1 / 4) (ValueError ''random error'')"


definition times_out :: "nat \<Rightarrow> nat attempt" where
  "times_out a = Raises 1 (TimeoutError ''read timed out'')"


definition slow :: "nat \<Rightarrow> nat attempt" where
  "slow a = Returns 1 (Some 42)"


definition returns_none :: "nat \<Rightarrow> nat attempt" where
  "returns_none a = Returns (1 / 10) None"

text \<open>
  A store as \<open>run\<close> makes it for a batch of one task, before the pool starts: the record
  of the task at address 0 and, at address 1, the dictionary that holds it under the
  id 0.
\<close>

definition one_task_heap :: "'t \<Rightarrow> ('t, 'r) heap" where
  "one_task_heap task =
     snd (new_dict [(0, 0)] (snd (new_record (TaskResult_init 0 task) (empty_heap task))))"

subsection \<open>The caller of \<open>get_task_status\<close>\<close>

text \<open>
  What a caller can do through a reference it holds: assign to a field of a record
  (\<open>snapshot[k].status = \<dots>\<close>) and change a dictionary (\<open>snapshot[k] = \<dots>\<close>,
  \<open>del snapshot[k]\<close>, \<open>snapshot.clear()\<close>), each given by the function applied to the
  contents of the object. The state that the processor owns is what it finds through
  its own dictionary: the ids with the contents of their records.
\<close>

definition update_record ::
  "addr \<Rightarrow> (('t, 'r) TaskResult \<Rightarrow> ('t, 'r) TaskResult) \<Rightarrow> ('t, 'r) heap \<Rightarrow> ('t, 'r) heap" where
  "update_record a f h = h\<lparr>records := (records h)(a := f (records h a))\<rparr>"

definition update_dict :: "addr \<Rightarrow> (tdict \<Rightarrow> tdict) \<Rightarrow> ('t, 'r) heap \<Rightarrow> ('t, 'r) heap" where
  "update_dict a f h = h\<lparr>dicts := (dicts h)(a := f (dicts h a))\<rparr>"

definition engine_state :: "processor \<Rightarrow> ('t, 'r) heap \<Rightarrow> (nat \<times> ('t, 'r) TaskResult) list" where
  "engine_state self h = map (\<lambda>(k, a). (k, records h a)) (dicts h (task_results self))"

text \<open>
  Two tasks that take 0.1 and 0.2 milliseconds, and a schedule in which the main thread
  starts to collect a millisecond after the tasks were picked up. A task that fails
  once and then returns \<open>None\<close>.
\<close>

definition first_done :: "nat \<Rightarrow> nat attempt" where
  "first_done a = Returns (1 / 10000) (Some 1)"

definition second_done :: "nat \<Rightarrow> nat attempt" where
  "second_done a = Returns (2 / 10000) (Some 2)"

definition collecting_late :: "nat list \<Rightarrow> schedule" where
  "collecting_late ord = \<lparr>started = (\<lambda>i. 100), order = ord, collecting_at = 100 + 1 / 1000\<rparr>"

definition none_after_retry :: "nat \<Rightarrow> nat attempt" where
  "none_after_retry a =
     (if a < 1 then Raises (1 / 4) (ValueError ''random error'') else Returns (1 / 10) None)"

section \<open>Properties\<close>

subsection \<open>Threads and the retry loop\<close>

lemma assign_simps [simp]:
  "obj (assign f th) = f (obj th)"
  "clock (assign f th) = clock th"
  "events (assign f th) = events th @ [Write (f (obj th))]"
  by (simp_all add: assign_def)

lemma sleep_simps [simp]:
  "obj (sleep d th) = obj th"
  "clock (sleep d th) = clock th + d"
  "events (sleep d th) = events th @ [Sleep d]"
  by (simp_all add: sleep_def)

lemma invoke_simps [simp]:
  "obj (invoke a d th) = obj th"
  "clock (invoke a d th) = clock th + d"
  "events (invoke a d th) = events th @ [Invoke a]"
  by (simp_all add: invoke_def)

lemma retry_loop_scenario:
  assumes fails: "\<And>j. a \<le> j \<Longrightarrow> j < k \<Longrightarrow> \<exists>d e. pr j task = Raises d e"
    and last: "int k = R \<or> (\<exists>d v. pr k task = Returns d v)"
    and ak: "a \<le> k" and kR: "int k \<le> R"
  shows "snd (retry_loop R pr task [a..<nat (R + 1)] th) =
           (case pr k task of Returns d v \<Rightarrow> Inr v | Raises d e \<Rightarrow> Inl e)
         \<and> retry_count (obj (fst (retry_loop R pr task [a..<nat (R + 1)] th))) =
           (if k = 0 then retry_count (obj th) else k)
         \<and> filter (\<lambda>e. \<not> is_Write e) (events (fst (retry_loop R pr task [a..<nat (R + 1)] th))) =
           filter (\<lambda>e. \<not> is_Write e) (events th)
             @ concat (map (\<lambda>j. [Invoke j, Sleep (1 / 10 * (of_nat j + 1))]) [a..<k]) @ [Invoke k]"
  using fails ak
proof (induction "k - a" arbitrary: a th)
  case 0
  then have [simp]: "a = k" by simp
  have l: "[k..<nat (R + 1)] = k # [Suc k..<nat (R + 1)]"
    using kR by (intro upt_conv_Cons) linarith
  show ?case
    using last by (cases "pr k task") (auto simp: l Let_def)
next
  case (Suc n)
  then have lt: "a < k" by simp
  then obtain d e where r: "pr a task = Raises d e"
    using Suc.prems(1) [of a] by auto
  have l: "[a..<nat (R + 1)] = a # [Suc a..<nat (R + 1)]"
    using kR lt by (intro upt_conv_Cons) linarith
  have aR: "int a < R" using lt kR by linarith
  have n: "n = k - Suc a" using Suc.hyps(2) by simp
  have k0: "k \<noteq> 0" using lt by simp
  have l2: "[a..<k] = a # [Suc a..<k]"
    using lt by (rule upt_conv_Cons)
  show ?case
    using Suc.hyps(1) [OF n, of "sleep (1 / 10 * (of_nat a + 1)) (invoke a d
        (if a > 0 then assign (\<lambda>r. r\<lparr>retry_count := a\<rparr>) (assign (\<lambda>r. r\<lparr>status := RETRYING\<rparr>) th) else th))"]
      Suc.prems(1) lt k0
    by (simp add: l l2 r aR Let_def)
qed


lemma retry_loop_frame:
  "task_id (obj (fst (retry_loop R pr task as th))) = task_id (obj th)
   \<and> original_task (obj (fst (retry_loop R pr task as th))) = original_task (obj th)
   \<and> result (obj (fst (retry_loop R pr task as th))) = result (obj th)
   \<and> error_message (obj (fst (retry_loop R pr task as th))) = error_message (obj th)
   \<and> start_time (obj (fst (retry_loop R pr task as th))) = start_time (obj th)
   \<and> end_time (obj (fst (retry_loop R pr task as th))) = end_time (obj th)"
  by (induction R pr task as th rule: retry_loop.induct)
     (auto simp: Let_def split: attempt.splits)


lemma writes_below_simps [simp]:
  "writes_below B []"
  "writes_below B (xs @ ys) = (writes_below B xs \<and> writes_below B ys)"
  "writes_below B (Write r # xs) = (retry_count r \<le> B \<and> writes_below B xs)"
  "writes_below B (Invoke a # xs) = writes_below B xs"
  "writes_below B (Sleep d # xs) = writes_below B xs"
  by (simp_all add: writes_below_def)

lemma retry_loop_bounded:
  assumes "list_all (\<lambda>a. a \<le> B) as" "retry_count (obj th) \<le> B" "writes_below B (events th)"
  shows "retry_count (obj (fst (retry_loop R pr task as th))) \<le> B
         \<and> writes_below B (events (fst (retry_loop R pr task as th)))"
  using assms
  by (induction R pr task as th rule: retry_loop.induct)
     (auto simp: Let_def split: attempt.splits)


lemma build_task_results_props:
  "fst (build_task_results its h) = zip (map fst its) [next_addr h..<next_addr h + length its]
   \<and> next_addr (snd (build_task_results its h)) = next_addr h + length its
   \<and> dicts (snd (build_task_results its h)) = dicts h
   \<and> (\<forall>a < next_addr h. records (snd (build_task_results its h)) a = records h a)
   \<and> (\<forall>j < length its. records (snd (build_task_results its h)) (next_addr h + j)
         = TaskResult_init (fst (its ! j)) (snd (its ! j)))
   \<and> trace (snd (build_task_results its h))
       = trace h @ map (\<lambda>j. (next_addr h + j, Write (TaskResult_init (fst (its ! j)) (snd (its ! j)))))
                    [0..<length its]"
proof (induction its arbitrary: h)
  case Nil
  show ?case by simp
next
  case (Cons it its)
  obtain i task where it: "it = (i, task)" by (cases it)
  define h1 where "h1 = snd (new_record (TaskResult_init i task :: ('a, 'b) TaskResult) h)"
  have h1: "next_addr h1 = Suc (next_addr h)" "dicts h1 = dicts h"
    "records h1 = (records h)(next_addr h := TaskResult_init i task)"
    "trace h1 = trace h @ [(next_addr h, Write (TaskResult_init i task))]"
    by (simp_all add: h1_def new_record_def)
  have step: "build_task_results (it # its) h =
      ((i, next_addr h) # fst (build_task_results its h1), snd (build_task_results its h1))"
    by (simp add: it h1_def new_record_def split: prod.splits)
  note IH = Cons.IH [of h1]
  have upt: "[next_addr h..<next_addr h + length (it # its)]
      = next_addr h # [Suc (next_addr h)..<Suc (next_addr h) + length its]"
    using upt_conv_Cons [of "next_addr h" "next_addr h + length (it # its)"] by simp
  have recs: "\<forall>j < length (it # its). records (snd (build_task_results its h1)) (next_addr h + j)
         = TaskResult_init (fst ((it # its) ! j)) (snd ((it # its) ! j))"
  proof (intro allI impI)
    fix j assume j: "j < length (it # its)"
    show "records (snd (build_task_results its h1)) (next_addr h + j)
         = TaskResult_init (fst ((it # its) ! j)) (snd ((it # its) ! j))"
    proof (cases j)
      case 0
      then show ?thesis using IH by (simp add: h1 it)
    next
      case (Suc j')
      then show ?thesis using IH j by (simp add: h1)
    qed
  qed
  have tr: "map (\<lambda>j. (next_addr h + j, Write (TaskResult_init (fst ((it # its) ! j)) (snd ((it # its) ! j)))))
                    [0..<length (it # its)]
      = (next_addr h, Write (TaskResult_init i task))
        # map (\<lambda>j. (Suc (next_addr h) + j, Write (TaskResult_init (fst (its ! j)) (snd (its ! j)))))
                    [0..<length its]"
    by (simp add: upt_conv_Cons it map_Suc_upt [symmetric] del: upt_Suc)
  show ?case
    unfolding step upt tr using IH recs
    by (simp add: h1 it)
qed


lemma thread_on_commit [simp]:
  "a' \<noteq> a \<Longrightarrow> thread_on a' t (commit a th h) = thread_on a' t h"
  by (simp add: thread_on_def commit_def)

lemma commit_simps [simp]:
  "dicts (commit a th h) = dicts h"
  "next_addr (commit a th h) = next_addr h"
  "records (commit a th h) = (records h)(a := obj th)"
  "trace (commit a th h) = trace h @ map (Pair a) (events th)"
  by (simp_all add: commit_def)

lemma getitem_Some: "map_of d k = Some a \<Longrightarrow> getitem d k = Inr a"
  by (simp add: getitem_def)

lemma run_with_retry_found:
  assumes "map_of (dicts h (task_results self)) tid = Some a"
  shows "run_with_retry self proc t tid h =
           (\<lparr>settled_at = clock (fst (retry_body self proc tid (thread_on a t h))),
             outcome = snd (retry_body self proc tid (thread_on a t h))\<rparr>,
            commit a (fst (retry_body self proc tid (thread_on a t h))) h)"
  by (simp add: run_with_retry_def getitem_Some [OF assms] split: prod.splits)

lemma submit_all_props:
  assumes "distinct (map fst its)"
    and "\<And>tid. tid \<in> fst ` set its \<Longrightarrow> map_of (dicts h (task_results self)) tid = Some (ad tid)"
    and "inj_on ad (fst ` set its)"
  shows "fst (submit_all self proc st its h) =
           map (\<lambda>(tid, task).
                 (\<lparr>settled_at = clock (fst (retry_body self proc tid (thread_on (ad tid) (st tid) h))),
                   outcome = snd (retry_body self proc tid (thread_on (ad tid) (st tid) h))\<rparr>, tid)) its
     \<and> dicts (snd (submit_all self proc st its h)) = dicts h
     \<and> next_addr (snd (submit_all self proc st its h)) = next_addr h
     \<and> (\<forall>a. a \<notin> ad ` fst ` set its \<longrightarrow> records (snd (submit_all self proc st its h)) a = records h a)
     \<and> (\<forall>tid \<in> fst ` set its. records (snd (submit_all self proc st its h)) (ad tid)
           = obj (fst (retry_body self proc tid (thread_on (ad tid) (st tid) h))))
     \<and> trace (snd (submit_all self proc st its h)) =
         trace h @ concat (map (\<lambda>(tid, task). map (Pair (ad tid))
            (events (fst (retry_body self proc tid (thread_on (ad tid) (st tid) h))))) its)"
  using assms
proof (induction its arbitrary: h)
  case Nil
  show ?case by simp
next
  case (Cons it its)
  obtain tid task where it: "it = (tid, task)" by (cases it)
  let ?W = "\<lambda>h tid. retry_body self proc tid (thread_on (ad tid) (st tid) h)"
  define h1 where "h1 = commit (ad tid) (fst (?W h tid)) h"
  have look: "map_of (dicts h (task_results self)) tid = Some (ad tid)"
    using Cons.prems(2) [of tid] by (simp add: it)
  have step: "submit_all self proc st (it # its) h =
      ((\<lparr>settled_at = clock (fst (?W h tid)), outcome = snd (?W h tid)\<rparr>, tid)
         # fst (submit_all self proc st its h1), snd (submit_all self proc st its h1))"
    by (simp add: it run_with_retry_found [OF look] h1_def split: prod.splits)
  have d: "distinct (map fst its)" and notin: "tid \<notin> fst ` set its"
    using Cons.prems(1) by (auto simp: it)
  have inj: "inj_on ad (fst ` set its)"
    using Cons.prems(3) by (auto simp: inj_on_def)
  have ne: "\<And>t'. t' \<in> fst ` set its \<Longrightarrow> ad t' \<noteq> ad tid"
  proof
    fix t' assume t': "t' \<in> fst ` set its" and eq: "ad t' = ad tid"
    have "t' = tid"
      using Cons.prems(3) t' eq by (auto simp: inj_on_def it)
    then show False using t' notin by simp
  qed
  have look1: "\<And>t'. t' \<in> fst ` set its \<Longrightarrow> map_of (dicts h1 (task_results self)) t' = Some (ad t')"
    using Cons.prems(2) by (simp add: h1_def)
  have W1: "\<And>t'. t' \<in> fst ` set its \<Longrightarrow> ?W h1 t' = ?W h t'"
    using ne by (simp add: h1_def)
  note IH = Cons.IH [of h1, OF d look1 inj]
  have m: "map (\<lambda>(tid, task). (\<lparr>settled_at = clock (fst (?W h1 tid)), outcome = snd (?W h1 tid)\<rparr>, tid)) its
         = map (\<lambda>(tid, task). (\<lparr>settled_at = clock (fst (?W h tid)), outcome = snd (?W h tid)\<rparr>, tid)) its"
    by (rule map_cong) (auto simp: W1 rev_image_eqI)
  have c: "map (\<lambda>(tid, task). map (Pair (ad tid)) (events (fst (?W h1 tid)))) its
         = map (\<lambda>(tid, task). map (Pair (ad tid)) (events (fst (?W h tid)))) its"
    by (rule map_cong) (auto simp: W1 rev_image_eqI)
  have r1: "\<forall>a. a \<notin> ad ` fst ` set (it # its) \<longrightarrow> records (snd (submit_all self proc st its h1)) a = records h a"
    using IH by (auto simp: it h1_def)
  have r2: "\<forall>t' \<in> fst ` set (it # its). records (snd (submit_all self proc st its h1)) (ad t')
           = obj (fst (?W h t'))"
  proof
    fix t' assume "t' \<in> fst ` set (it # its)"
    then consider "t' = tid" | "t' \<in> fst ` set its" by (auto simp: it)
    then show "records (snd (submit_all self proc st its h1)) (ad t') = obj (fst (?W h t'))"
    proof cases
      case 1
      have "ad tid \<notin> ad ` fst ` set its" using ne by force
      then have "records (snd (submit_all self proc st its h1)) (ad tid) = records h1 (ad tid)"
        using IH by blast
      then show ?thesis by (simp add: 1 h1_def)
    next
      case 2
      then show ?thesis using IH W1 by auto
    qed
  qed
  have h1s: "dicts h1 = dicts h" "next_addr h1 = next_addr h"
    "trace h1 = trace h @ map (Pair (ad tid)) (events (fst (?W h tid)))"
    by (simp_all add: h1_def)
  have i1: "fst (submit_all self proc st its h1) =
      map (\<lambda>(tid, task). (\<lparr>settled_at = clock (fst (?W h tid)), outcome = snd (?W h tid)\<rparr>, tid)) its"
    using IH m by simp
  have i2: "dicts (snd (submit_all self proc st its h1)) = dicts h"
    and i3: "next_addr (snd (submit_all self proc st its h1)) = next_addr h"
    using IH h1s by simp_all
  have i6: "trace (snd (submit_all self proc st its h1)) =
      trace h @ map (Pair (ad tid)) (events (fst (?W h tid)))
        @ concat (map (\<lambda>(tid, task). map (Pair (ad tid)) (events (fst (?W h tid)))) its)"
    using IH c h1s by simp
  show ?case
    unfolding step fst_conv snd_conv
    using i1 i2 i3 r1 r2 i6 by (simp add: it)
qed


lemma future_result_done:
  "settled_at fut \<le> now \<Longrightarrow> future_result fut now tmo = (outcome fut, now)"
  by (simp add: future_result_def)

lemma collect_snd: "snd (collect res th) = output_of res"
  by (simp add: collect_def output_of_def split: sum.splits exn.splits prod.splits)

lemma collect_obj:
  "obj (fst (collect res th)) =
     (obj th)\<lparr>result := (case res of Inr v \<Rightarrow> v | Inl e \<Rightarrow> result (obj th)),
              status := status_of res,
              error_message := message_of res (error_message (obj th)),
              end_time := Some (clock th)\<rparr>"
  by (simp add: collect_def status_of_def message_of_def split: sum.splits exn.splits prod.splits)

lemma collect_clock: "clock (fst (collect res th)) = clock th"
  by (simp add: collect_def split: sum.splits exn.splits prod.splits)

lemma collect_events:
  "events th = [] \<Longrightarrow>
   list_all (\<lambda>e. case e of Write r \<Rightarrow> retry_count r = retry_count (obj th) | _ \<Rightarrow> False)
     (events (fst (collect res th)))"
  by (simp add: collect_def split: sum.splits exn.splits prod.splits)

lemma thread_on_simps [simp]:
  "obj (thread_on a t h) = records h a"
  "clock (thread_on a t h) = t"
  "events (thread_on a t h) = []"
  by (simp_all add: thread_on_def)

lemma collect_loop_props:
  assumes "distinct ids"
    and "\<And>i. i \<in> set ids \<Longrightarrow> map_of (dicts (m_heap m) (task_results (m_self m))) i = Some (ad i)"
    and "inj_on ad (set ids)"
  shows "fst (collect_loop (map (\<lambda>i. (F i, i)) ids) m) = None
     \<and> m_results (snd (collect_loop (map (\<lambda>i. (F i, i)) ids) m))
         = m_results m @ map (\<lambda>i. output_of (outcome (F i))) ids
     \<and> m_self (snd (collect_loop (map (\<lambda>i. (F i, i)) ids) m))
         = (m_self m)\<lparr>completed_tasks := completed_tasks (m_self m) + length ids\<rparr>
     \<and> dicts (m_heap (snd (collect_loop (map (\<lambda>i. (F i, i)) ids) m))) = dicts (m_heap m)
     \<and> next_addr (m_heap (snd (collect_loop (map (\<lambda>i. (F i, i)) ids) m))) = next_addr (m_heap m)
     \<and> (\<forall>a. a \<notin> ad ` set ids \<longrightarrow>
           records (m_heap (snd (collect_loop (map (\<lambda>i. (F i, i)) ids) m))) a = records (m_heap m) a)
     \<and> (\<forall>i \<in> set ids. \<exists>now. settled_at (F i) \<le> now \<and>
           records (m_heap (snd (collect_loop (map (\<lambda>i. (F i, i)) ids) m))) (ad i)
             = obj (fst (collect (outcome (F i)) (thread_on (ad i) now (m_heap m)))))
     \<and> (\<exists>ext. trace (m_heap (snd (collect_loop (map (\<lambda>i. (F i, i)) ids) m))) = trace (m_heap m) @ ext
           \<and> (\<forall>(a, e) \<in> set ext. a \<in> ad ` set ids \<and>
                 (\<forall>r. e = Write r \<longrightarrow> retry_count r = retry_count (records (m_heap m) a))))"
  using assms
proof (induction ids arbitrary: m)
  case Nil
  show ?case by simp
next
  case (Cons i ids)
  let ?h = "m_heap m"
  let ?now = "max (m_now m) (settled_at (F i))"
  let ?th = "fst (collect (outcome (F i)) (thread_on (ad i) ?now ?h))"
  define m1 where "m1 =
     \<lparr>m_self = (m_self m)\<lparr>completed_tasks := completed_tasks (m_self m) + 1\<rparr>,
      m_heap = commit (ad i) ?th ?h, m_now = clock ?th,
      m_results = m_results m @ [output_of (outcome (F i))]\<rparr>"
  have look: "map_of (dicts ?h (task_results (m_self m))) i = Some (ad i)"
    using Cons.prems(2) [of i] by simp
  have step: "collect_loop (map (\<lambda>i. (F i, i)) (i # ids)) m = collect_loop (map (\<lambda>i. (F i, i)) ids) m1"
    by (simp add: Let_def case_prod_beta getitem_Some [OF look] future_result_done m1_def
          collect_snd)
  have d: "distinct ids" and notin: "i \<notin> set ids"
    using Cons.prems(1) by auto
  have inj: "inj_on ad (set ids)"
    using Cons.prems(3) by (auto simp: inj_on_def)
  have ne: "\<And>j. j \<in> set ids \<Longrightarrow> ad j \<noteq> ad i"
  proof
    fix j assume j: "j \<in> set ids" and eq: "ad j = ad i"
    have "j = i" using Cons.prems(3) j eq by (auto simp: inj_on_def)
    then show False using j notin by simp
  qed
  have m1s: "m_self m1 = (m_self m)\<lparr>completed_tasks := completed_tasks (m_self m) + 1\<rparr>"
    "dicts (m_heap m1) = dicts ?h" "next_addr (m_heap m1) = next_addr ?h"
    "records (m_heap m1) = (records ?h)(ad i := obj ?th)"
    "trace (m_heap m1) = trace ?h @ map (Pair (ad i)) (events ?th)"
    "m_results m1 = m_results m @ [output_of (outcome (F i))]"
    by (simp_all add: m1_def)
  have look1: "\<And>j. j \<in> set ids \<Longrightarrow> map_of (dicts (m_heap m1) (task_results (m_self m1))) j = Some (ad j)"
    using Cons.prems(2) by (simp add: m1s)
  note IH = Cons.IH [of m1, OF d look1 inj]
  let ?m' = "snd (collect_loop (map (\<lambda>i. (F i, i)) ids) m1)"
  have c1: "fst (collect_loop (map (\<lambda>i. (F i, i)) ids) m1) = None" using IH by blast
  have c2: "m_results ?m' = m_results m @ map (\<lambda>i. output_of (outcome (F i))) (i # ids)"
    using IH by (simp add: m1s)
  have c3: "m_self ?m' = (m_self m)\<lparr>completed_tasks := completed_tasks (m_self m) + length (i # ids)\<rparr>"
    using IH by (simp add: m1s)
  have c4: "dicts (m_heap ?m') = dicts ?h" and c5: "next_addr (m_heap ?m') = next_addr ?h"
    using IH by (simp_all add: m1s)
  have c6: "\<forall>a. a \<notin> ad ` set (i # ids) \<longrightarrow> records (m_heap ?m') a = records ?h a"
    using IH by (auto simp: m1s)
  have c7: "\<forall>j \<in> set (i # ids). \<exists>now. settled_at (F j) \<le> now \<and>
           records (m_heap ?m') (ad j) = obj (fst (collect (outcome (F j)) (thread_on (ad j) now ?h)))"
  proof
    fix j assume "j \<in> set (i # ids)"
    then consider "j = i" | "j \<in> set ids" by auto
    then show "\<exists>now. settled_at (F j) \<le> now \<and>
           records (m_heap ?m') (ad j) = obj (fst (collect (outcome (F j)) (thread_on (ad j) now ?h)))"
    proof cases
      case 1
      have "ad i \<notin> ad ` set ids" using ne by force
      then have "records (m_heap ?m') (ad i) = records (m_heap m1) (ad i)" using IH by blast
      then have "records (m_heap ?m') (ad i) = obj ?th" by (simp add: m1s)
      moreover have "settled_at (F i) \<le> ?now" by simp
      ultimately show ?thesis unfolding 1 by blast
    next
      case 2
      then obtain now where n: "settled_at (F j) \<le> now"
        "records (m_heap ?m') (ad j) = obj (fst (collect (outcome (F j)) (thread_on (ad j) now (m_heap m1))))"
        using IH by blast
      have "thread_on (ad j) now (m_heap m1) = thread_on (ad j) now ?h"
        using ne [OF 2] by (simp add: thread_on_def m1s)
      then show ?thesis using n by auto
    qed
  qed
  obtain ext where ext: "trace (m_heap ?m') = trace (m_heap m1) @ ext"
    "\<forall>(a, e) \<in> set ext. a \<in> ad ` set ids \<and>
         (\<forall>r. e = Write r \<longrightarrow> retry_count r = retry_count (records (m_heap m1) a))"
    using IH by blast
  have ev: "\<forall>e \<in> set (events ?th). \<forall>r. e = Write r \<longrightarrow> retry_count r = retry_count (records ?h (ad i))"
    using collect_events [of "thread_on (ad i) ?now ?h" "outcome (F i)"]
    by (auto simp: list_all_iff split: event.splits)
  have c8: "\<exists>ext'. trace (m_heap ?m') = trace ?h @ ext'
           \<and> (\<forall>(a, e) \<in> set ext'. a \<in> ad ` set (i # ids) \<and>
                 (\<forall>r. e = Write r \<longrightarrow> retry_count r = retry_count (records ?h a)))"
  proof (intro exI conjI)
    show "trace (m_heap ?m') = trace ?h @ (map (Pair (ad i)) (events ?th) @ ext)"
      using ext(1) by (simp add: m1s)
    show "\<forall>(a, e) \<in> set (map (Pair (ad i)) (events ?th) @ ext). a \<in> ad ` set (i # ids) \<and>
                 (\<forall>r. e = Write r \<longrightarrow> retry_count r = retry_count (records ?h a))"
      using ext(2) ev ne by (auto simp: m1s)
  qed
  show ?case
    unfolding step using c1 c2 c3 c4 c5 c6 c7 c8 by blast
qed


lemma retry_body_cong:
  "retry self' = retry self \<Longrightarrow> retry_body self' proc i th = retry_body self proc i th"
  by (simp add: retry_body_def)

lemma map_of_zip_upt:
  "i < n \<Longrightarrow> map_of (zip [0..<n] [b..<b + n]) i = Some (b + i)"
  using map_of_zip_nth [of "[0..<n]" "[b..<b + n]" i] by simp

lemma futures_of_order:
  assumes "set ord \<subseteq> {..<n}"
  shows "concat (map (\<lambda>i. filter (\<lambda>(fut, tid). tid = i) (map (\<lambda>i. (F i, i)) [0..<n])) ord)
           = map (\<lambda>i. (F i, i)) ord"
proof -
  have one: "filter (\<lambda>(fut, tid). tid = i) (map (\<lambda>i. (F i, i)) [0..<n]) = [(F i, i)]" if "i < n" for i
  proof -
    have "filter (\<lambda>(fut, tid). tid = i) (map (\<lambda>i. (F i, i)) [0..<n])
        = map (\<lambda>i. (F i, i)) (filter (\<lambda>j. j = i) [0..<n])"
      by (simp add: filter_map o_def)
    also have "filter (\<lambda>j. j = i) [0..<n] = [i]"
      using that by (induction n) auto
    finally show ?thesis by simp
  qed
  show ?thesis
    using assms by (induction ord) (auto simp: one)
qed

lemma insort_key_map:
  "insort_key f (g x) (map g xs) = map g (insort_key (\<lambda>y. f (g y)) x xs)"
  by (induction xs) auto

lemma sort_key_map:
  "sort_key f (map g xs) = map g (sort_key (\<lambda>y. f (g y)) xs)"
  by (induction xs) (auto simp: insort_key_map)

lemma as_completed_map:
  assumes "set ord \<subseteq> {..<n}"
  shows "as_completed now ord (map (\<lambda>i. (F i, i)) [0..<n])
           = map (\<lambda>i. (F i, i)) (hand_out now (\<lambda>i. settled_at (F i)) ord)"
  unfolding as_completed_def futures_of_order [OF assms] hand_out_def
  by (simp add: Let_def filter_map o_def sort_key_map)

lemma hand_out_set [simp]: "set (hand_out now s ord) = set ord"
  by (auto simp: hand_out_def)

lemma hand_out_distinct: "distinct ord \<Longrightarrow> distinct (hand_out now s ord)"
  by (auto simp: hand_out_def)

lemma hand_out_length [simp]: "length (hand_out now s ord) = length ord"
  using sum_length_filter_compl [of "\<lambda>i. s i \<le> now" ord] by (simp add: hand_out_def)

lemma hand_out_ordered:
  assumes "k1 < k2" "k2 < length ord"
  shows "s (hand_out now s ord ! k1) \<le> max now (s (hand_out now s ord ! k2))"
proof -
  let ?A = "filter (\<lambda>i. s i \<le> now) ord"
  let ?B = "sort_key s (filter (\<lambda>i. \<not> s i \<le> now) ord)"
  have len: "length ?A + length ?B = length ord"
    using sum_length_filter_compl [of "\<lambda>i. s i \<le> now" ord] by simp
  have A: "s (?A ! k) \<le> now" if "k < length ?A" for k
    using nth_mem [OF that] by simp
  show ?thesis
  proof (cases "k1 < length ?A")
    case True
    then show ?thesis
      using A [OF True] by (simp add: hand_out_def nth_append)
  next
    case False
    then have k: "k1 - length ?A < k2 - length ?A" "k2 - length ?A < length ?B"
      using assms len by linarith+
    have "sorted (map s ?B)" by (rule sorted_sort_key)
    then have "map s ?B ! (k1 - length ?A) \<le> map s ?B ! (k2 - length ?A)"
      using k by (intro sorted_nth_mono) simp_all
    then have "s (?B ! (k1 - length ?A)) \<le> s (?B ! (k2 - length ?A))"
      using k by simp
    then show ?thesis
      using False assms by (simp add: hand_out_def nth_append)
  qed
qed

lemma run_props:
  fixes proc :: "('t, 'r) process" and h :: "('t, 'r) heap"
  assumes mw: "0 < max_workers self"
    and dist: "distinct (order sch)" and ids: "set (order sch) = {..<length tasks}"
  shows "fst (run proc sch tasks self h)
           = Inr (map (\<lambda>i. output_of (snd (worker self proc sch i (tasks ! i))))
               (handed_out self proc sch tasks))
     \<and> fst (snd (run proc sch tasks self h))
           = self\<lparr>total_tasks := length tasks, completed_tasks := length tasks,
                  task_results := next_addr h + length tasks\<rparr>
     \<and> dicts (snd (snd (run proc sch tasks self h))) (next_addr h + length tasks)
           = zip [0..<length tasks] [next_addr h..<next_addr h + length tasks]
     \<and> (\<forall>i < length tasks. \<exists>now. clock (fst (worker self proc sch i (tasks ! i))) \<le> now \<and>
           records (snd (snd (run proc sch tasks self h))) (next_addr h + i)
             = obj (fst (collect (snd (worker self proc sch i (tasks ! i)))
                 \<lparr>obj = obj (fst (worker self proc sch i (tasks ! i))), clock = now, events = []\<rparr>)))
     \<and> (\<exists>ext. trace (snd (snd (run proc sch tasks self h)))
           = trace h
             @ map (\<lambda>i. (next_addr h + i, Write (TaskResult_init i (tasks ! i)))) [0..<length tasks]
             @ concat (map (\<lambda>i. map (Pair (next_addr h + i))
                 (events (fst (worker self proc sch i (tasks ! i))))) [0..<length tasks])
             @ ext
         \<and> (\<forall>(a, e) \<in> set ext. \<exists>i < length tasks. a = next_addr h + i \<and>
               (\<forall>r. e = Write r \<longrightarrow>
                  retry_count r = retry_count (obj (fst (worker self proc sch i (tasks ! i)))))))"
proof -
  define N where "N = length tasks"
  define b where "b = next_addr h"
  define its where "its = enumerate 0 tasks"
  define d where "d = zip [0..<N] [b..<b + N]"
  define h1 where "h1 = snd (build_task_results its h)"
  define h2 where "h2 = snd (new_dict d h1)"
  define self2 where "self2 = self\<lparr>total_tasks := N, completed_tasks := 0, task_results := b + N\<rparr>"
  define ad where "ad = (\<lambda>i. b + i)"
  define W where "W = (\<lambda>i. worker self proc sch i (tasks ! i))"
  define F where "F = (\<lambda>i. \<lparr>settled_at = clock (fst (W i)), outcome = snd (W i)\<rparr>)"
  define h3 where "h3 = snd (submit_all self2 proc (started sch) its h2)"
  define m0 where "m0 = \<lparr>m_self = self2, m_heap = h3, m_now = collecting_at sch, m_results = []\<rparr>"
  define ho where "ho = handed_out self proc sch tasks"
  define m where "m = snd (collect_loop (map (\<lambda>i. (F i, i)) ho) m0)"
  have ids': "set (order sch) = {..<N}" by (simp add: ids N_def)
  have "settles self proc sch tasks = (\<lambda>i. settled_at (F i))"
    by (rule ext) (simp add: settles_def F_def W_def)
  then have ho: "ho = hand_out (collecting_at sch) (\<lambda>i. settled_at (F i)) (order sch)"
    by (simp add: ho_def handed_out_def)
  have ho_set: "set ho = {..<N}" and ho_dist: "distinct ho"
    by (simp_all add: ho ids' dist hand_out_distinct)
  have len: "length its = N" and fsts: "map fst its = [0..<N]"
    and nth: "\<And>j. j < N \<Longrightarrow> its ! j = (j, tasks ! j)"
    by (simp_all add: its_def N_def nth_enumerate_eq)
  have fset: "fst ` set its = {..<N}"
    using fsts by (metis atLeast_upt set_map)
  note B = build_task_results_props [of its h, folded h1_def b_def, unfolded len fsts]
  have bd: "fst (build_task_results its h) = d" using B by (simp add: d_def)
  have h1s: "next_addr h1 = b + N" "dicts h1 = dicts h"
    "\<And>j. j < N \<Longrightarrow> records h1 (b + j) = TaskResult_init j (tasks ! j)"
    "trace h1 = trace h @ map (\<lambda>j. (b + j, Write (TaskResult_init j (tasks ! j)))) [0..<N]"
    using B by (simp_all add: nth)
  have h2s: "next_addr h2 = Suc (b + N)" "dicts h2 (b + N) = d"
    "records h2 = records h1" "trace h2 = trace h1"
    by (simp_all add: h2_def new_dict_def h1s)
  have nd: "new_dict d h1 = (b + N, h2)"
    by (simp add: h2_def new_dict_def h1s)
  have look: "\<And>i. i < N \<Longrightarrow> map_of d i = Some (ad i)"
    by (simp add: d_def ad_def map_of_zip_upt)
  have inj: "inj_on ad A" for A by (simp add: ad_def inj_on_def)
  have Wh2: "retry_body self2 proc i (thread_on (ad i) (started sch i) h2) = W i" if "i < N" for i
  proof -
    have "retry_body self2 proc i th = retry_body self proc i th" for th
      by (rule retry_body_cong) (simp add: self2_def)
    moreover have "thread_on (ad i) (started sch i) h2
        = \<lparr>obj = TaskResult_init i (tasks ! i), clock = started sch i, events = []\<rparr>"
      using that by (simp add: thread_on_def h2s h1s ad_def)
    ultimately show ?thesis by (simp add: W_def worker_def)
  qed
  have S: "fst (submit_all self2 proc (started sch) its h2) = map (\<lambda>i. (F i, i)) [0..<N]"
    "dicts h3 = dicts h2" "next_addr h3 = next_addr h2"
    "\<And>i. i < N \<Longrightarrow> records h3 (ad i) = obj (fst (W i))"
    "trace h3 = trace h2 @ concat (map (\<lambda>i. map (Pair (ad i)) (events (fst (W i)))) [0..<N])"
  proof -
    have d': "distinct (map fst its)" by (simp add: fsts)
    have l': "\<And>tid. tid \<in> fst ` set its \<Longrightarrow> map_of (dicts h2 (task_results self2)) tid = Some (ad tid)"
      by (simp add: fset self2_def h2s look)
    note P = submit_all_props [of its h2 self2 ad proc "started sch", OF d' l' inj, folded h3_def]
    have mem: "\<And>tid task. (tid, task) \<in> set its \<Longrightarrow> tid < N"
      using fset by force
    have "map (\<lambda>(tid, task).
                 (\<lparr>settled_at = clock (fst (retry_body self2 proc tid (thread_on (ad tid) (started sch tid) h2))),
                   outcome = snd (retry_body self2 proc tid (thread_on (ad tid) (started sch tid) h2))\<rparr>, tid)) its
        = map (\<lambda>(tid, task). (F tid, tid)) its"
      by (rule map_cong) (auto simp: F_def Wh2 dest: mem)
    then have "fst (submit_all self2 proc (started sch) its h2)
        = map (\<lambda>(tid, task). (F tid, tid)) its"
      using P by simp
    also have "\<dots> = map (\<lambda>i. (F i, i)) (map fst its)"
      by (simp add: case_prod_beta o_def)
    finally show "fst (submit_all self2 proc (started sch) its h2) = map (\<lambda>i. (F i, i)) [0..<N]"
      by (simp add: fsts)
    show "dicts h3 = dicts h2" "next_addr h3 = next_addr h2" using P by simp_all
    show "\<And>i. i < N \<Longrightarrow> records h3 (ad i) = obj (fst (W i))"
      using P fset Wh2 by auto
    have "map (\<lambda>(tid, task). map (Pair (ad tid))
            (events (fst (retry_body self2 proc tid (thread_on (ad tid) (started sch tid) h2))))) its
        = map (\<lambda>(tid, task). map (Pair (ad tid)) (events (fst (W tid)))) its"
      by (rule map_cong) (auto simp: Wh2 dest: mem)
    moreover have "trace h3 = trace h2 @ concat (map (\<lambda>(tid, task). map (Pair (ad tid))
            (events (fst (retry_body self2 proc tid (thread_on (ad tid) (started sch tid) h2))))) its)"
      using P by blast
    ultimately have "trace h3 = trace h2 @ concat (map (\<lambda>(tid, task). map (Pair (ad tid)) (events (fst (W tid)))) its)"
      by (simp only:)
    also have "map (\<lambda>(tid, task). map (Pair (ad tid)) (events (fst (W tid)))) its
        = map (\<lambda>i. map (Pair (ad i)) (events (fst (W i)))) (map fst its)"
      by (simp add: case_prod_beta o_def)
    finally show "trace h3 = trace h2 @ concat (map (\<lambda>i. map (Pair (ad i)) (events (fst (W i)))) [0..<N])"
      by (simp add: fsts)
  qed
  have ac: "as_completed (collecting_at sch) (order sch) (map (\<lambda>i. (F i, i)) [0..<N])
      = map (\<lambda>i. (F i, i)) ho"
    unfolding ho by (rule as_completed_map) (simp add: ids')
  have l0: "\<And>i. i \<in> set ho \<Longrightarrow> map_of (dicts (m_heap m0) (task_results (m_self m0))) i = Some (ad i)"
    by (simp add: m0_def S h2s self2_def look ho_set)
  note C = collect_loop_props [of ho m0 ad F, OF ho_dist l0 inj, folded m_def]
  have run: "run proc sch tasks self h = (Inr (m_results m), m_self m, m_heap m)"
  proof -
    have sub: "submit_all self2 proc (started sch) its h2 = (map (\<lambda>i. (F i, i)) [0..<N], h3)"
      using S(1) by (simp add: h3_def prod_eq_iff)
    have bt: "build_task_results its h = (d, h1)"
      using bd by (simp add: h1_def prod_eq_iff)
    have cl: "collect_loop (map (\<lambda>i. (F i, i)) ho) m0 = (None, m)"
      using C by (simp add: m_def prod_eq_iff)
    show ?thesis
      unfolding run_def
      using mw
      by (simp add: its_def [symmetric] bt nd N_def [symmetric] self2_def [symmetric] sub ac
            m0_def [symmetric] cl)
  qed
  have r1: "m_results m = map (\<lambda>i. output_of (snd (W i))) ho"
    using C by (simp add: m0_def F_def)
  have r2: "m_self m = self\<lparr>total_tasks := N, completed_tasks := N, task_results := b + N\<rparr>"
  proof -
    have "length ho = N"
      using ho_dist ho_set by (metis card_lessThan distinct_card)
    then show ?thesis using C by (simp add: m0_def self2_def)
  qed
  have r3: "dicts (m_heap m) (b + N) = d"
    using C by (simp add: m0_def S h2s)
  have r4: "\<forall>i < N. \<exists>now. clock (fst (W i)) \<le> now \<and> records (m_heap m) (b + i)
      = obj (fst (collect (snd (W i)) \<lparr>obj = obj (fst (W i)), clock = now, events = []\<rparr>))"
  proof (intro allI impI)
    fix i assume i: "i < N"
    then have "i \<in> set ho" by (simp add: ho_set)
    then obtain now where "settled_at (F i) \<le> now"
      "records (m_heap m) (ad i) = obj (fst (collect (outcome (F i)) (thread_on (ad i) now (m_heap m0))))"
      using C by blast
    moreover have "thread_on (ad i) now (m_heap m0) = \<lparr>obj = obj (fst (W i)), clock = now, events = []\<rparr>"
      using S(4) [OF i] by (simp add: thread_on_def m0_def)
    ultimately show "\<exists>now. clock (fst (W i)) \<le> now \<and> records (m_heap m) (b + i)
      = obj (fst (collect (snd (W i)) \<lparr>obj = obj (fst (W i)), clock = now, events = []\<rparr>))"
      by (auto simp: F_def ad_def)
  qed
  obtain ext where ext: "trace (m_heap m) = trace (m_heap m0) @ ext"
    "\<forall>(a, e) \<in> set ext. a \<in> ad ` set ho \<and>
       (\<forall>r. e = Write r \<longrightarrow> retry_count r = retry_count (records (m_heap m0) a))"
    using C by blast
  have r5: "trace (m_heap m) = trace h
             @ map (\<lambda>i. (b + i, Write (TaskResult_init i (tasks ! i)))) [0..<N]
             @ concat (map (\<lambda>i. map (Pair (b + i)) (events (fst (W i)))) [0..<N])
             @ ext"
    using ext(1) by (simp add: m0_def S h2s h1s ad_def)
  have r6: "\<forall>(a, e) \<in> set ext. \<exists>i < N. a = b + i \<and>
               (\<forall>r. e = Write r \<longrightarrow> retry_count r = retry_count (obj (fst (W i))))"
  proof (clarify)
    fix a e assume "(a, e) \<in> set ext"
    then have a: "a \<in> ad ` set ho"
      and w: "\<forall>r. e = Write r \<longrightarrow> retry_count r = retry_count (records (m_heap m0) a)"
      using ext(2) by auto
    from a obtain i where i: "i < N" "a = ad i" by (auto simp: ho_set)
    have "records (m_heap m0) a = obj (fst (W i))"
      using S(4) [OF i(1)] i(2) by (simp add: m0_def)
    then show "\<exists>i < N. a = b + i \<and>
               (\<forall>r. e = Write r \<longrightarrow> retry_count r = retry_count (obj (fst (W i))))"
      using i w by (auto simp: ad_def)
  qed
  show ?thesis
    unfolding run fst_conv snd_conv
    using r1 r2 r3 r4 r5 r6
    unfolding N_def b_def W_def d_def ho_def by blast
qed


lemma worker_scenario:
  assumes fails: "\<And>j. j < k \<Longrightarrow> \<exists>d e. proc i j task = Raises d e"
    and last: "int k = retry self \<or> (\<exists>d v. proc i k task = Returns d v)"
    and kR: "int k \<le> retry self"
  shows "snd (worker self proc sch i task) =
           (case proc i k task of Returns d v \<Rightarrow> Inr v | Raises d e \<Rightarrow> Inl e)"
    and "retry_count (obj (fst (worker self proc sch i task))) = k"
    and "filter (\<lambda>e. \<not> is_Write e) (events (fst (worker self proc sch i task))) =
           concat (map (\<lambda>j. [Invoke j, Sleep (1 / 10 * (of_nat j + 1))]) [0..<k]) @ [Invoke k]"
  using retry_loop_scenario [of 0 k "proc i" task "retry self"
      "assign (\<lambda>r. r\<lparr>status := RUNNING\<rparr>) (assign (\<lambda>r. r\<lparr>start_time := Some (started sch i)\<rparr>)
         \<lparr>obj = TaskResult_init i task, clock = started sch i, events = []\<rparr>)"] assms
  by (auto simp: worker_def retry_body_def TaskResult_init_def)

lemma worker_frame:
  "task_id (obj (fst (worker self proc sch i task))) = i"
  "original_task (obj (fst (worker self proc sch i task))) = task"
  "result (obj (fst (worker self proc sch i task))) = None"
  "error_message (obj (fst (worker self proc sch i task))) = None"
  "start_time (obj (fst (worker self proc sch i task))) = Some (started sch i)"
  "end_time (obj (fst (worker self proc sch i task))) = None"
  by (simp_all add: worker_def retry_body_def retry_loop_frame TaskResult_init_def)

lemma worker_bounded:
  assumes "0 \<le> retry self"
  shows "int (retry_count (obj (fst (worker self proc sch i task)))) \<le> retry self"
    and "\<And>r. Write r \<in> set (events (fst (worker self proc sch i task))) \<Longrightarrow> int (retry_count r) \<le> retry self"
proof -
  let ?th = "assign (\<lambda>r. r\<lparr>status := RUNNING\<rparr>) (assign (\<lambda>r. r\<lparr>start_time := Some (started sch i)\<rparr>)
         \<lparr>obj = TaskResult_init i task, clock = started sch i, events = []\<rparr>)"
  have "list_all (\<lambda>a. a \<le> nat (retry self)) [0..<nat (retry self + 1)]"
    using assms by (auto simp: list_all_iff)
  from retry_loop_bounded [OF this, of ?th "retry self" "proc i" task]
  have b: "retry_count (obj (fst (worker self proc sch i task))) \<le> nat (retry self)"
    "writes_below (nat (retry self)) (events (fst (worker self proc sch i task)))"
    by (simp_all add: worker_def retry_body_def TaskResult_init_def)
  show "int (retry_count (obj (fst (worker self proc sch i task)))) \<le> retry self"
    using b(1) assms by linarith
  fix r assume "Write r \<in> set (events (fst (worker self proc sch i task)))"
  then have "retry_count r \<le> nat (retry self)"
    using b(2) by (auto simp: writes_below_def list_all_iff split: event.splits)
  then show "int (retry_count r) \<le> retry self" using assms by linarith
qed

lemma run_task_record:
  fixes proc :: "('t, 'r) process" and h :: "('t, 'r) heap"
  assumes "0 < max_workers self" "distinct (order sch)" "set (order sch) = {..<length tasks}"
    and "i < length tasks"
  shows "\<exists>now. clock (fst (worker self proc sch i (tasks ! i))) \<le> now \<and>
     task_record (fst (snd (run proc sch tasks self h))) (snd (snd (run proc sch tasks self h))) i
       = Some ((obj (fst (worker self proc sch i (tasks ! i))))
           \<lparr>result := output_of (snd (worker self proc sch i (tasks ! i))),
            status := status_of (snd (worker self proc sch i (tasks ! i))),
            error_message := message_of (snd (worker self proc sch i (tasks ! i))) None,
            end_time := Some now\<rparr>)"
proof -
  note P = run_props [OF assms(1-3), where proc = proc and h = h]
  have "map_of (dicts (snd (snd (run proc sch tasks self h)))
          (task_results (fst (snd (run proc sch tasks self h))))) i = Some (next_addr h + i)"
    using P assms(4) by (simp add: map_of_zip_upt)
  moreover obtain now where "clock (fst (worker self proc sch i (tasks ! i))) \<le> now"
    "records (snd (snd (run proc sch tasks self h))) (next_addr h + i)
             = obj (fst (collect (snd (worker self proc sch i (tasks ! i)))
                 \<lparr>obj = obj (fst (worker self proc sch i (tasks ! i))), clock = now, events = []\<rparr>))"
    using P assms(4) by blast
  ultimately show ?thesis
    by (auto simp: task_record_def collect_obj worker_frame output_of_def split: sum.splits intro!: exI [of _ now])
qed


subsection \<open>The run that is refused, and the cases of a collected result\<close>


lemma run_rejects:
  fixes proc :: "('t, 'r) process" and h :: "('t, 'r) heap"
  assumes mw: "max_workers self \<le> 0"
  shows "fst (run proc sch tasks self h) = Inl (ValueError ''max_workers must be greater than 0'')
     \<and> fst (snd (run proc sch tasks self h))
           = self\<lparr>total_tasks := length tasks, completed_tasks := 0,
                  task_results := next_addr h + length tasks\<rparr>
     \<and> dicts (snd (snd (run proc sch tasks self h))) (next_addr h + length tasks)
           = zip [0..<length tasks] [next_addr h..<next_addr h + length tasks]
     \<and> (\<forall>i < length tasks. records (snd (snd (run proc sch tasks self h))) (next_addr h + i)
             = TaskResult_init i (tasks ! i))
     \<and> trace (snd (snd (run proc sch tasks self h)))
           = trace h
             @ map (\<lambda>i. (next_addr h + i, Write (TaskResult_init i (tasks ! i)))) [0..<length tasks]"
proof -
  define N where "N = length tasks"
  define b where "b = next_addr h"
  define its where "its = enumerate 0 tasks"
  define d where "d = zip [0..<N] [b..<b + N]"
  define h1 where "h1 = snd (build_task_results its h)"
  define h2 where "h2 = snd (new_dict d h1)"
  define self2 where "self2 = self\<lparr>total_tasks := N, completed_tasks := 0, task_results := b + N\<rparr>"
  have len: "length its = N" and fsts: "map fst its = [0..<N]"
    and nth: "\<And>j. j < N \<Longrightarrow> its ! j = (j, tasks ! j)"
    by (simp_all add: its_def N_def nth_enumerate_eq)
  note B = build_task_results_props [of its h, folded h1_def b_def, unfolded len fsts]
  have bd: "fst (build_task_results its h) = d" using B by (simp add: d_def)
  have h1s: "next_addr h1 = b + N" "dicts h1 = dicts h"
    "\<And>j. j < N \<Longrightarrow> records h1 (b + j) = TaskResult_init j (tasks ! j)"
    "trace h1 = trace h @ map (\<lambda>j. (b + j, Write (TaskResult_init j (tasks ! j)))) [0..<N]"
    using B by (simp_all add: nth)
  have h2s: "next_addr h2 = Suc (b + N)" "dicts h2 (b + N) = d"
    "records h2 = records h1" "trace h2 = trace h1"
    by (simp_all add: h2_def new_dict_def h1s)
  have nd: "new_dict d h1 = (b + N, h2)"
    by (simp add: h2_def new_dict_def h1s)
  have bt: "build_task_results its h = (d, h1)"
    using bd by (simp add: h1_def prod_eq_iff)
  have run: "run proc sch tasks self h = (Inl (ValueError ''max_workers must be greater than 0''), self2, h2)"
    unfolding run_def using mw
    by (simp add: its_def [symmetric] bt nd N_def [symmetric] self2_def [symmetric])
  show ?thesis
    unfolding run fst_conv snd_conv
    using h2s h1s
    unfolding N_def b_def d_def self2_def by simp
qed


lemma status_of_cases:
  "status_of res = COMPLETED \<or> status_of res = FAILED \<or> status_of res = TIMEOUT"
  by (simp add: status_of_def split: sum.splits exn.splits)


lemma output_of_status:
  "output_of res = (if status_of res = COMPLETED then output_of res else None)"
  by (simp add: status_of_def output_of_def split: sum.splits exn.splits)

subsection \<open>Statistics\<close>

lemma dict_get_set:
  "dict_get (dict_set st k v) k' dflt = (if k' = k then v else dict_get st k' dflt)"
  by (induction st k v rule: dict_set.induct) (auto simp: dict_get_def)

lemma sum_dict_set:
  "sum_list (map snd (dict_set st k (Suc (dict_get st k 0)))) = Suc (sum_list (map snd st))"
  by (induction st) (auto simp: dict_get_def)

lemma count_statuses:
  "dict_get (fold (\<lambda>res st. dict_set st (status res) (dict_get st (status res) 0 + 1)) rs st) s 0
     = dict_get st s 0 + length (filter (\<lambda>r. status r = s) rs)
   \<and> sum_list (map snd (fold (\<lambda>res st. dict_set st (status res) (dict_get st (status res) 0 + 1)) rs st))
     = sum_list (map snd st) + length rs"
  by (induction rs arbitrary: st) (auto simp: dict_get_set sum_dict_set)

lemma fold_fmin_Fin:
  "fold fmin (map Fin xs) (Fin x) = Fin (fold min xs x)"
  by (induction xs arbitrary: x) (simp_all add: min.commute)

lemma values_of_zip:
  "map (\<lambda>(k, a). f a) (zip [0..<n] [b..<b + n]) = map (\<lambda>i. f (b + i)) [0..<n]"
proof -
  have a: "map (\<lambda>(k, a). f a) zs = map f (map snd zs)" for zs :: "(nat \<times> nat) list"
    by (induction zs) auto
  have b: "map snd (zip [0..<n] [b..<b + n]) = [b..<b + n]"
    by simp
  have c: "[b..<b + n] = map (\<lambda>i. b + i) [0..<n]"
    using map_add_upt [of b n] by (simp add: add.commute)
  have "map f [b..<b + n] = map (\<lambda>i. f (b + i)) [0..<n]"
    by (subst c) (simp add: o_def)
  then show ?thesis
    unfolding a b .
qed

lemma get_statistics_started:
  assumes recs: "map (\<lambda>(k, a). records h a) (dicts h (task_results self)) = rs" and ne: "rs \<noteq> []"
    and st: "map start_time rs = map Some ss" and s0: "0 \<notin> set ss"
    and en: "map end_time rs = map Some es"
  shows "\<exists>sts. get_statistics self h
           = Statistics (total_tasks self) (completed_tasks self) sts (Fin (Max (set es) - Min (set ss)))
         \<and> sum_list (map snd sts) = length rs
         \<and> (\<forall>s. dict_get sts s 0 = length (filter (\<lambda>r. status r = s) rs))"
proof -
  obtain r rs' where rs: "rs = r # rs'" using ne by (cases rs) auto
  obtain e es' where es: "es = e # es'" using en rs by (cases es) auto
  obtain s ss' where ss: "ss = s # ss'" using st rs by (cases ss) auto
  have E: "map end_or_zero rs = es"
  proof -
    have "end_or_zero x = y" if "end_time x = Some y" for x :: "('a, 'b) TaskResult" and y
      using that by (simp add: end_or_zero_def)
    then show ?thesis
      using en by (induction rs arbitrary: es) auto
  qed
  have S: "map start_or_inf rs = map Fin ss"
  proof -
    have "start_or_inf x = Fin y" if "start_time x = Some y" "y \<noteq> 0"
      for x :: "('a, 'b) TaskResult" and y
      using that by (simp add: start_or_inf_def)
    then show ?thesis
      using st s0 by (induction rs arbitrary: ss) auto
  qed
  have mx: "fold max (map end_or_zero rs') (end_or_zero r) = Max (set es)"
    using E Max.set_eq_fold [of e es'] by (simp add: rs es)
  have mn: "fold fmin (map start_or_inf rs') (start_or_inf r) = Fin (Min (set ss))"
    using S Min.set_eq_fold [of s ss'] by (simp add: rs ss fold_fmin_Fin)
  let ?sts = "fold (\<lambda>res st. dict_set st (status res) (dict_get st (status res) 0 + 1)) rs []"
  have "get_statistics self h
      = Statistics (total_tasks self) (completed_tasks self) ?sts (Fin (Max (set es) - Min (set ss)))"
    unfolding get_statistics_def recs
    by (simp add: rs mx [unfolded rs] mn [unfolded rs] Let_def)
  moreover have "sum_list (map snd ?sts) = length rs"
    and "\<forall>s. dict_get ?sts s 0 = length (filter (\<lambda>r. status r = s) rs)"
    using count_statuses [of rs "[]"] by (simp_all add: dict_get_def)
  ultimately show ?thesis by blast
qed

subsection \<open>When a call settles\<close>

lemma retry_loop_clock:
  assumes fails: "\<And>j. a \<le> j \<Longrightarrow> j < k \<Longrightarrow> \<exists>d e. pr j task = Raises d e"
    and last: "int k = R \<or> (\<exists>d v. pr k task = Returns d v)"
    and ak: "a \<le> k" and kR: "int k \<le> R"
  shows "clock (fst (retry_loop R pr task [a..<nat (R + 1)] th)) =
           clock th + sum_list (map (\<lambda>j. duration (pr j task) + 1 / 10 * (of_nat j + 1)) [a..<k])
             + duration (pr k task)"
  using fails ak
proof (induction "k - a" arbitrary: a th)
  case 0
  then have [simp]: "a = k" by simp
  have l: "[k..<nat (R + 1)] = k # [Suc k..<nat (R + 1)]"
    using kR by (intro upt_conv_Cons) linarith
  show ?case
    using last by (cases "pr k task") (auto simp: l Let_def duration_def)
next
  case (Suc n)
  then have lt: "a < k" by simp
  then obtain d e where r: "pr a task = Raises d e"
    using Suc.prems(1) [of a] by auto
  have l: "[a..<nat (R + 1)] = a # [Suc a..<nat (R + 1)]"
    using kR lt by (intro upt_conv_Cons) linarith
  have aR: "int a < R" using lt kR by linarith
  have n: "n = k - Suc a" using Suc.hyps(2) by simp
  have l2: "[a..<k] = a # [Suc a..<k]"
    using lt by (rule upt_conv_Cons)
  show ?case
    using Suc.hyps(1) [OF n, of "sleep (1 / 10 * (of_nat a + 1)) (invoke a d
        (if a > 0 then assign (\<lambda>r. r\<lparr>retry_count := a\<rparr>) (assign (\<lambda>r. r\<lparr>status := RETRYING\<rparr>) th) else th))"]
      Suc.prems(1) lt
    by (simp add: l l2 r aR Let_def duration_def)
qed

lemma settles_scenario:
  assumes fails: "\<And>j. j < k \<Longrightarrow> \<exists>d e. proc i j (tasks ! i) = Raises d e"
    and last: "int k = retry self \<or> (\<exists>d v. proc i k (tasks ! i) = Returns d v)"
    and kR: "int k \<le> retry self"
  shows "settles self proc sch tasks i =
           started sch i
             + sum_list (map (\<lambda>j. duration (proc i j (tasks ! i)) + 1 / 10 * (of_nat j + 1)) [0..<k])
             + duration (proc i k (tasks ! i))"
  using retry_loop_clock [of 0 k "proc i" "tasks ! i" "retry self"
      "assign (\<lambda>r. r\<lparr>status := RUNNING\<rparr>) (assign (\<lambda>r. r\<lparr>start_time := Some (started sch i)\<rparr>)
         \<lparr>obj = TaskResult_init i (tasks ! i), clock = started sch i, events = []\<rparr>)"] assms
  by (auto simp: settles_def worker_def retry_body_def TaskResult_init_def)

section \<open>The claims\<close>

lemma init_example:
  "init mw r t (empty_heap filler) = Inr (new_processor mw r t, started_heap filler)"
  by (simp add: init_def new_processor_def started_heap_def new_dict_def empty_heap_def)

text \<open>
  C1. The claim: a task whose call does not settle within the timeout is marked
  \<open>TIMEOUT\<close>, with the fixed message, and its output element is the placeholder; a task
  that sleeps longer than the timeout reaches \<open>TIMEOUT\<close> even if it would have
  succeeded. The code does not do so: \<open>as_completed\<close> hands a future out only when it
  has finished, so \<open>future.result(timeout=\<dots>)\<close> never waits and never times out. With
  the timeout 0.01 s, a single task that takes one second and succeeds ends
  \<open>COMPLETED\<close>, a second after its start, and its value is in the output.
\<close>

theorem slow_task_completes:
  "(case run MyTaskProcessor_process (at_once [0]) [slow] (new_processor 1 0 (1 / 100))
             (started_heap slow) of
        (res, self', h') \<Rightarrow>
          res = Inr [Some 42]
          \<and> map_option status (task_record self' h' 0) = Some COMPLETED
          \<and> map_option start_time (task_record self' h' 0) = Some (Some 100)
          \<and> map_option end_time (task_record self' h' 0) = Some (Some 101)
          \<and> timeout self' = 1 / 100)"
  by code_simp

text \<open>
  More generally, the timeout has no part in what \<open>run\<close> does: with any other timeout
  the output is the same, and so is the final status of every task.
\<close>

lemma worker_timeout:
  "worker (self\<lparr>timeout := t\<rparr>) proc sch i task = worker self proc sch i task"
  by (simp add: worker_def retry_body_cong [of "self\<lparr>timeout := t\<rparr>" self])

lemma handed_out_timeout:
  "handed_out (self\<lparr>timeout := t\<rparr>) proc sch tasks = handed_out self proc sch tasks"
proof -
  have "settles (self\<lparr>timeout := t\<rparr>) proc sch tasks = settles self proc sch tasks"
    by (rule ext) (simp add: settles_def worker_timeout)
  then show ?thesis by (simp add: handed_out_def)
qed

lemma timeout_is_not_enforced:
  fixes proc :: "('t, 'r) process" and h :: "('t, 'r) heap"
  assumes mw: "0 < max_workers self"
    and dist: "distinct (order sch)" and ids: "set (order sch) = {..<length tasks}"
  shows "fst (run proc sch tasks (self\<lparr>timeout := t\<rparr>) h) = fst (run proc sch tasks self h)"
    and "i < length tasks \<Longrightarrow>
      map_option status (task_record (fst (snd (run proc sch tasks (self\<lparr>timeout := t\<rparr>) h)))
          (snd (snd (run proc sch tasks (self\<lparr>timeout := t\<rparr>) h))) i)
        = map_option status (task_record (fst (snd (run proc sch tasks self h)))
          (snd (snd (run proc sch tasks self h))) i)"
proof -
  have mw': "0 < max_workers (self\<lparr>timeout := t\<rparr>)" using mw by simp
  show "fst (run proc sch tasks (self\<lparr>timeout := t\<rparr>) h) = fst (run proc sch tasks self h)"
    using run_props [OF mw dist ids, where proc = proc and h = h]
      run_props [OF mw' dist ids, where proc = proc and h = h]
    by (simp add: worker_timeout handed_out_timeout)
  assume i: "i < length tasks"
  show "map_option status (task_record (fst (snd (run proc sch tasks (self\<lparr>timeout := t\<rparr>) h)))
          (snd (snd (run proc sch tasks (self\<lparr>timeout := t\<rparr>) h))) i)
        = map_option status (task_record (fst (snd (run proc sch tasks self h)))
          (snd (snd (run proc sch tasks self h))) i)"
    using run_task_record [OF mw dist ids i, where proc = proc and h = h]
      run_task_record [OF mw' dist ids i, where proc = proc and h = h]
    by (auto simp: worker_timeout)
qed

text \<open>
  C2. A task whose work function fails on exactly its first \<open>k\<close> attempts, \<open>k\<close> at most
  the retry limit, and succeeds on the next one, has after \<open>run\<close> the status
  \<open>COMPLETED\<close>, the retry count \<open>k\<close> and the produced value in \<open>result\<close>. This holds for
  every schedule: whenever the pool starts the tasks and in whatever order their
  futures are handed out.
\<close>

theorem retried_task_completes:
  fixes proc :: "('t, 'r) process" and h :: "('t, 'r) heap"
  assumes "0 < max_workers self"
    and "distinct (order sch)" and "set (order sch) = {..<length tasks}"
    and "i < length tasks"
    and "int k \<le> retry self"
    and "\<forall>j<k. \<exists>d e. proc i j (tasks ! i) = Raises d e"
    and "proc i k (tasks ! i) = Returns d v"
  shows "case run proc sch tasks self h of
           (res, self', h') \<Rightarrow>
             \<exists>r. task_record self' h' i = Some r
               \<and> status r = COMPLETED \<and> retry_count r = k \<and> result r = v"
proof -
  let ?W = "worker self proc sch i (tasks ! i)"
  have out: "snd ?W = Inr v" and rc: "retry_count (obj (fst ?W)) = k"
    using worker_scenario(1,2) [of k proc i "tasks ! i" self sch] assms(5-7) by simp_all
  obtain now where
    "task_record (fst (snd (run proc sch tasks self h))) (snd (snd (run proc sch tasks self h))) i
       = Some ((obj (fst ?W))\<lparr>result := output_of (snd ?W), status := status_of (snd ?W),
            error_message := message_of (snd ?W) None, end_time := Some now\<rparr>)"
    using run_task_record [OF assms(1-4), where proc = proc and h = h] by blast
  then show ?thesis
    by (simp add: case_prod_beta out rc output_of_def status_of_def)
qed

theorem retried_task_completes_witness:
  "(case run MyTaskProcessor_process (at_once [1, 0]) [fails_twice, quick] (new_processor 3 2 5)
           (started_heap quick) of
      (res, self', h') \<Rightarrow>
        \<exists>r. task_record self' h' 0 = Some r
          \<and> status r = COMPLETED \<and> retry_count r = 2 \<and> result r = Some 7)"
proof -
  have 1: "0 < max_workers (new_processor 3 2 5)"
    by (simp add: new_processor_def)
  have 2: "distinct (order (at_once [1, 0]))"
    by (simp add: at_once_def)
  have 3: "set (order (at_once [1, 0])) = {..<length [fails_twice, quick]}"
    by (auto simp: at_once_def)
  have 4: "0 < length [fails_twice, quick]"
    by simp
  have 5: "int 2 \<le> retry (new_processor 3 2 5)"
    by (simp add: new_processor_def)
  have 6: "\<forall>j<2. \<exists>d e. MyTaskProcessor_process 0 j ([fails_twice, quick] ! 0) = Raises d e"
  proof (intro allI impI)
    fix j :: nat
    assume "j < 2"
    then have "MyTaskProcessor_process 0 j ([fails_twice, quick] ! 0)
        = Raises (1 / 2) (ValueError ''random error'')"
      by (simp add: MyTaskProcessor_process_def fails_twice_def)
    then show "\<exists>d e. MyTaskProcessor_process 0 j ([fails_twice, quick] ! 0) = Raises d e"
      by blast
  qed
  have 7: "MyTaskProcessor_process 0 2 ([fails_twice, quick] ! 0) = Returns 1 (Some 7)"
    by (simp add: MyTaskProcessor_process_def fails_twice_def)
  show ?thesis
    using retried_task_completes [where proc = MyTaskProcessor_process and i = 0 and k = 2
        and tasks = "[fails_twice, quick]", OF 1 2 3 4 5 6 7]
    by simp
qed

text \<open>
  C3. The claim: a task whose work function fails on all \<open>retry + 1\<close> attempts ends
  \<open>FAILED\<close>, with \<open>retry_count\<close> the retry limit and the message of the last error. It
  fails for a work function whose last error is a \<open>TimeoutError\<close>: the handler
  \<open>except TimeoutError\<close> of \<open>run\<close> takes it, and the record ends \<open>TIMEOUT\<close> with the
  fixed message.
\<close>

theorem exhausted_task_not_failed:
  "MyTaskProcessor_process 0 0 times_out = Raises 1 (TimeoutError ''read timed out'')
   \<and> (case run MyTaskProcessor_process (at_once [0]) [times_out] (new_processor 1 0 5)
             (started_heap times_out) of
        (res, self', h') \<Rightarrow>
          map_option status (task_record self' h' 0) = Some TIMEOUT
          \<and> map_option error_message (task_record self' h' 0) = Some (Some timeout_message)
          \<and> map_option retry_count (task_record self' h' 0) = Some 0)
   \<and> timeout_message \<noteq> ''read timed out''"
  by code_simp

text \<open>
  C3, amended. A task whose work function fails on all \<open>retry + 1\<close> attempts ends with
  \<open>retry_count\<close> the retry limit; its status is \<open>FAILED\<close> and its message that of the last
  error, unless the last error is a \<open>TimeoutError\<close>: then its status is \<open>TIMEOUT\<close> and its
  message the fixed one.
\<close>

theorem exhausted_task_fails:
  fixes proc :: "('t, 'r) process" and h :: "('t, 'r) heap"
  assumes "0 < max_workers self"
    and "distinct (order sch)" and "set (order sch) = {..<length tasks}"
    and "i < length tasks"
    and R: "0 \<le> retry self"
    and fails: "\<forall>j < nat (retry self). \<exists>d e. proc i j (tasks ! i) = Raises d e"
    and last: "proc i (nat (retry self)) (tasks ! i) = Raises d e"
  shows "case run proc sch tasks self h of
           (res, self', h') \<Rightarrow>
             \<exists>r. task_record self' h' i = Some r
               \<and> int (retry_count r) = retry self
               \<and> (case e of
                     TimeoutError m \<Rightarrow> status r = TIMEOUT \<and> error_message r = Some timeout_message
                   | _ \<Rightarrow> status r = FAILED \<and> error_message r = Some (str_exn e))"
proof -
  let ?W = "worker self proc sch i (tasks ! i)"
  have k: "int (nat (retry self)) = retry self" using R by simp
  have out: "snd ?W = Inl e" and rc: "retry_count (obj (fst ?W)) = nat (retry self)"
    using worker_scenario(1,2) [of "nat (retry self)" proc i "tasks ! i" self sch] fails last k
    by simp_all
  obtain now where
    "task_record (fst (snd (run proc sch tasks self h))) (snd (snd (run proc sch tasks self h))) i
       = Some ((obj (fst ?W))\<lparr>result := output_of (snd ?W), status := status_of (snd ?W),
            error_message := message_of (snd ?W) None, end_time := Some now\<rparr>)"
    using run_task_record [OF assms(1-4), where proc = proc and h = h] by blast
  then show ?thesis
    using R by (simp add: case_prod_beta out rc status_of_def message_of_def split: exn.splits)
qed

theorem exhausted_task_fails_witness:
  "(case run MyTaskProcessor_process (at_once [1, 0]) [always_fails, quick] (new_processor 3 2 5)
          (started_heap quick) of
      (res, self', h') \<Rightarrow>
        \<exists>r. task_record self' h' 0 = Some r
          \<and> int (retry_count r) = retry (new_processor 3 2 5)
          \<and> status r = FAILED \<and> error_message r = Some ''random error'')"
proof -
  have 1: "0 < max_workers (new_processor 3 2 5)"
    by (simp add: new_processor_def)
  have 2: "distinct (order (at_once [1, 0]))"
    by (simp add: at_once_def)
  have 3: "set (order (at_once [1, 0])) = {..<length [always_fails, quick]}"
    by (auto simp: at_once_def)
  have 4: "0 < length [always_fails, quick]"
    by simp
  have 5: "0 \<le> retry (new_processor 3 2 5)"
    by (simp add: new_processor_def)
  have c: "MyTaskProcessor_process 0 j ([always_fails, quick] ! 0)
        = Raises (1 / 4) (ValueError ''random error'')" for j
    by (simp add: MyTaskProcessor_process_def always_fails_def)
  have 6: "\<forall>j < nat (retry (new_processor 3 2 5)).
      \<exists>d e. MyTaskProcessor_process 0 j ([always_fails, quick] ! 0) = Raises d e"
    using c by blast
  show ?thesis
    using exhausted_task_fails [where proc = MyTaskProcessor_process and i = 0
        and tasks = "[always_fails, quick]", OF 1 2 3 4 5 6 c]
    by simp
qed

text \<open>
  C4. With a retry limit that is not negative, the retry count of every task record is
  at most the limit at every moment of \<open>run\<close> and after it, whatever the work function
  does: every assignment that \<open>run\<close> and its threads make to a record (the trace since
  the start of \<open>run\<close>, which begins with the new records) leaves a retry count within
  the limit, and so do the records that \<open>run\<close> leaves.
\<close>

theorem retry_count_bounded:
  fixes proc :: "('t, 'r) process" and h :: "('t, 'r) heap"
  assumes R: "0 \<le> retry self"
    and dist: "distinct (order sch)" and ids: "set (order sch) = {..<length tasks}"
  shows "case run proc sch tasks self h of
           (res, self', h') \<Rightarrow>
             (\<forall>a r. (a, Write r) \<in> set (drop (length (trace h)) (trace h'))
                \<longrightarrow> int (retry_count r) \<le> retry self)
             \<and> (\<forall>i < length tasks. \<exists>r. task_record self' h' i = Some r
                    \<and> int (retry_count r) \<le> retry self)"
proof (cases "0 < max_workers self")
  case True
  let ?W = "\<lambda>i. worker self proc sch i (tasks ! i)"
  let ?h' = "snd (snd (run proc sch tasks self h))"
  let ?self' = "fst (snd (run proc sch tasks self h))"
  note P = run_props [OF True dist ids, where proc = proc and h = h]
  obtain ext where tr: "trace ?h' = trace h
             @ map (\<lambda>i. (next_addr h + i, Write (TaskResult_init i (tasks ! i)))) [0..<length tasks]
             @ concat (map (\<lambda>i. map (Pair (next_addr h + i)) (events (fst (?W i)))) [0..<length tasks])
             @ ext"
    and ext: "\<forall>(a, e) \<in> set ext. \<exists>i < length tasks. a = next_addr h + i \<and>
               (\<forall>r. e = Write r \<longrightarrow> retry_count r = retry_count (obj (fst (?W i))))"
    using P by blast
  have 1: "int (retry_count r) \<le> retry self"
    if "(a, Write r) \<in> set (drop (length (trace h)) (trace ?h'))" for a r
  proof -
    from that consider
      (init) "(a, Write r) \<in> set (map (\<lambda>i. (next_addr h + i, Write (TaskResult_init i (tasks ! i)))) [0..<length tasks])"
      | (work) "(a, Write r) \<in> set (concat (map (\<lambda>i. map (Pair (next_addr h + i)) (events (fst (?W i)))) [0..<length tasks]))"
      | (coll) "(a, Write r) \<in> set ext"
      unfolding tr by auto
    then show ?thesis
    proof cases
      case init
      then show ?thesis using R by (auto simp: TaskResult_init_def)
    next
      case work
      then obtain i where "Write r \<in> set (events (fst (?W i)))" by auto
      then show ?thesis by (rule worker_bounded(2) [OF R])
    next
      case coll
      then obtain i where "retry_count r = retry_count (obj (fst (?W i)))"
        using ext by fastforce
      then show ?thesis using worker_bounded(1) [OF R, of proc sch i "tasks ! i"] by simp
    qed
  qed
  have 2: "\<exists>r. task_record ?self' ?h' i = Some r \<and> int (retry_count r) \<le> retry self"
    if "i < length tasks" for i
    using run_task_record [OF True dist ids that, where proc = proc and h = h]
      worker_bounded(1) [OF R, of proc sch i "tasks ! i"]
    by auto
  show ?thesis
    using 1 2 by (simp add: case_prod_beta)
next
  case False
  then have mw: "max_workers self \<le> 0" by simp
  let ?h' = "snd (snd (run proc sch tasks self h))"
  let ?self' = "fst (snd (run proc sch tasks self h))"
  note P = run_rejects [OF mw, where proc = proc and h = h and sch = sch and tasks = tasks]
  have 1: "int (retry_count r) \<le> retry self"
    if "(a, Write r) \<in> set (drop (length (trace h)) (trace ?h'))" for a r
    using that P R by (auto simp: TaskResult_init_def)
  have 2: "\<exists>r. task_record ?self' ?h' i = Some r \<and> int (retry_count r) \<le> retry self"
    if "i < length tasks" for i
    using P R that by (simp add: task_record_def map_of_zip_upt TaskResult_init_def)
  show ?thesis
    using 1 2 by (simp add: case_prod_beta)
qed

theorem retry_count_bounded_witness:
  "(case run MyTaskProcessor_process (at_once [1, 2, 0]) [fails_twice, quick, always_fails]
          (new_processor 3 2 5) (started_heap quick) of
      (res, self', h') \<Rightarrow>
        (\<forall>a r. (a, Write r) \<in> set (drop (length (trace (started_heap quick :: (nat \<Rightarrow> nat attempt, nat) heap))) (trace h'))
            \<longrightarrow> int (retry_count r) \<le> retry (new_processor 3 2 5)))
   \<and> 0 \<le> retry (new_processor 3 2 5)"
proof -
  have 1: "0 \<le> retry (new_processor 3 2 5)"
    by (simp add: new_processor_def)
  have 2: "distinct (order (at_once [1, 2, 0]))"
    by (simp add: at_once_def)
  have 3: "set (order (at_once [1, 2, 0])) = {..<length [fails_twice, quick, always_fails]}"
    by (auto simp: at_once_def)
  show ?thesis
    using retry_count_bounded [where proc = MyTaskProcessor_process, OF 1 2 3] 1
    by (simp add: case_prod_beta)
qed

text \<open>
  C5. The claim: a malformed configuration, such as \<open>max_workers < 1\<close>, raises an error
  when the processor is constructed. The code has no check in \<open>__init__\<close>:
  constructing with \<open>max_workers = 0\<close> returns a processor that holds the 0.
\<close>

theorem construction_accepts_no_workers:
  "init 0 2 10 (empty_heap quick) = Inr (new_processor 0 2 10, started_heap quick)
   \<and> max_workers (new_processor 0 2 10) < 1"
  by (simp add: init_example new_processor_def)

text \<open>
  C5, amended. Construction accepts every configuration and stores it as it is. With
  \<open>max_workers < 1\<close> it is \<open>run\<close> that raises, the \<open>ValueError\<close> of the thread pool it
  creates, before any task runs: every record is still \<open>PENDING\<close> and not started, and
  the work function has not been called.
\<close>

theorem configuration_checked_by_pool:
  fixes proc :: "('t, 'r) process" and h :: "('t, 'r) heap"
  shows "\<exists>self h0. init mw r t h = Inr (self, h0)
           \<and> max_workers self = mw \<and> retry self = r \<and> timeout self = t
           \<and> (mw < 1 \<longrightarrow>
                (case run proc sch tasks self h0 of
                   (res, self', h') \<Rightarrow>
                     res = Inl (ValueError ''max_workers must be greater than 0'')
                     \<and> (\<forall>i < length tasks. \<exists>rec. task_record self' h' i = Some rec
                            \<and> status rec = PENDING \<and> start_time rec = None)
                     \<and> (\<forall>a n. (a, Invoke n) \<notin> set (drop (length (trace h0)) (trace h')))))"
proof -
  define self where "self = \<lparr>max_workers = mw, retry = r, timeout = t, task_results = next_addr h,
               total_tasks = 0, completed_tasks = 0\<rparr>"
  define h0 where "h0 = snd (new_dict [] h)"
  have i: "init mw r t h = Inr (self, h0)"
    by (simp add: init_def self_def h0_def new_dict_def)
  have "case run proc sch tasks self h0 of
          (res, self', h') \<Rightarrow>
            res = Inl (ValueError ''max_workers must be greater than 0'')
            \<and> (\<forall>i < length tasks. \<exists>rec. task_record self' h' i = Some rec
                   \<and> status rec = PENDING \<and> start_time rec = None)
            \<and> (\<forall>a n. (a, Invoke n) \<notin> set (drop (length (trace h0)) (trace h')))"
    if "mw < 1"
  proof -
    have mw: "max_workers self \<le> 0" using that by (simp add: self_def)
    note P = run_rejects [OF mw, where proc = proc and h = h0 and sch = sch and tasks = tasks]
    show ?thesis
      using P
      by (auto simp: case_prod_beta task_record_def map_of_zip_upt TaskResult_init_def)
  qed
  then show ?thesis
    using i by (auto simp: self_def)
qed

theorem configuration_checked_by_pool_witness:
  "\<exists>self h0. init 0 2 10 (empty_heap quick) = Inr (self, h0)
      \<and> max_workers self = 0
      \<and> (case run MyTaskProcessor_process (at_once [0]) [quick] self h0 of
            (res, self', h') \<Rightarrow>
              res = Inl (ValueError ''max_workers must be greater than 0'')
              \<and> map_option status (task_record self' h' 0) = Some PENDING)"
  using configuration_checked_by_pool [where mw = 0 and r = 2 and t = 10
      and h = "empty_heap quick" and proc = MyTaskProcessor_process and sch = "at_once [0]"
      and tasks = "[quick]"]
  by (auto simp: case_prod_beta)

text \<open>
  C6. The claim: no mutation that a caller performs on the snapshot returned by
  \<open>get_task_status\<close>, or on the records in it, changes the state the processor owns.
  The copy is shallow: the record found in the snapshot under an id is the very
  object of the processor, and an assignment to its status shows in the processor's
  state.
\<close>

theorem snapshot_shares_records:
  "(case run MyTaskProcessor_process (at_once [0]) [quick] (new_processor 1 0 5)
          (started_heap quick) of
      (res, self', h') \<Rightarrow>
        (case get_task_status self' h' of
           (snapshot, h1) \<Rightarrow>
             getitem (dicts h1 snapshot) 0 = Inr 1
             \<and> map (\<lambda>(k, r). (k, status r)) (engine_state self' h1) = [(0, COMPLETED)]
             \<and> map (\<lambda>(k, r). (k, status r))
                   (engine_state self' (update_record 1 (\<lambda>r. r\<lparr>status := PENDING\<rparr>) h1))
                 = [(0, PENDING)]))"
  by code_simp

text \<open>
  C6, amended. \<open>get_task_status\<close> returns a new dictionary with the items of the
  processor's own: whatever the caller does to that dictionary leaves the processor's
  state as it was; the records in it are the processor's records, so an assignment to
  a field of one is an assignment to the processor's record.
\<close>

theorem snapshot_is_shallow_copy:
  fixes h :: "('t, 'r) heap"
  assumes alloc: "task_results self < next_addr h"
  shows "case get_task_status self h of
           (snapshot, h1) \<Rightarrow>
             snapshot \<noteq> task_results self
             \<and> dicts h1 snapshot = dicts h (task_results self)
             \<and> engine_state self h1 = engine_state self h
             \<and> (\<forall>f. engine_state self (update_dict snapshot f h1) = engine_state self h)
             \<and> (\<forall>k a g. map_of (dicts h1 snapshot) k = Some a \<longrightarrow>
                   task_record self (update_record a g h1) k = Some (g (records h a)))"
  using alloc
  by (auto simp: get_task_status_def new_dict_def engine_state_def update_dict_def
        update_record_def task_record_def)

theorem snapshot_is_shallow_copy_witness:
  "(case get_task_status
          (fst (snd (run MyTaskProcessor_process (at_once [0]) [quick] (new_processor 1 0 5)
             (started_heap quick))))
          (snd (snd (run MyTaskProcessor_process (at_once [0]) [quick] (new_processor 1 0 5)
             (started_heap quick)))) of
      (snapshot, h1) \<Rightarrow>
        snapshot \<noteq> 2 \<and> dicts h1 snapshot = [(0, 1)])
   \<and> task_results (fst (snd (run MyTaskProcessor_process (at_once [0]) [quick] (new_processor 1 0 5)
             (started_heap quick)))) = 2"
proof -
  let ?R = "run MyTaskProcessor_process (at_once [0]) [quick] (new_processor 1 0 5)
             (started_heap quick)"
  have 1: "task_results (fst (snd ?R)) < next_addr (snd (snd ?R))"
    by code_simp
  have 2: "task_results (fst (snd ?R)) = 2"
    by code_simp
  have 3: "dicts (snd (snd ?R)) 2 = [(0, 1)]"
    by code_simp
  show ?thesis
    using snapshot_is_shallow_copy [OF 1] 2 3 by (simp add: case_prod_beta)
qed

text \<open>
  C7. The claim: after \<open>run\<close> on a batch of size \<open>N\<close>, \<open>get_statistics\<close> reports \<open>N\<close> as
  the completed count, counts by status that sum to \<open>N\<close>, and the span from the least
  start time to the greatest end time, or zero when no task has started. For the empty
  batch it reports none of these: \<open>get_statistics\<close> returns the dictionary with the one
  key \<open>status\<close>.
\<close>

theorem statistics_of_empty_batch:
  "(case run MyTaskProcessor_process (at_once []) [] (new_processor 3 2 5) (started_heap quick) of
      (res, self', h') \<Rightarrow> res = Inr [] \<and> get_statistics self' h' = NotExecuted)"
  by code_simp

text \<open>
  C7, amended. After \<open>run\<close> on a batch of \<open>N \<ge> 1\<close> tasks (clock readings being other than
  zero), \<open>get_statistics\<close> reports \<open>N\<close> as the number of tasks and as the completed
  count, for each status the number of records with it (the counts sum to \<open>N\<close>), and as
  total time the greatest end time minus the least start time of the records. After
  \<open>run\<close> on the empty batch it returns the dictionary with the one key \<open>status\<close>.
\<close>

theorem statistics_after_run:
  fixes proc :: "('t, 'r) process" and h :: "('t, 'r) heap"
  assumes mw: "0 < max_workers self"
    and dist: "distinct (order sch)" and ids: "set (order sch) = {..<length tasks}"
    and nz: "\<forall>i < length tasks. started sch i \<noteq> 0"
  shows "case run proc sch tasks self h of
           (res, self', h') \<Rightarrow>
             if tasks = [] then get_statistics self' h' = NotExecuted
             else \<exists>rs sts. map (task_record self' h') [0..<length tasks] = map Some rs
                    \<and> list_all (\<lambda>r. start_time r \<noteq> None \<and> end_time r \<noteq> None) rs
                    \<and> get_statistics self' h'
                        = Statistics (length tasks) (length tasks) sts
                            (Fin (Max (set (map (\<lambda>r. the (end_time r)) rs))
                                  - Min (set (map (\<lambda>r. the (start_time r)) rs))))
                    \<and> sum_list (map snd sts) = length tasks
                    \<and> (\<forall>s. dict_get sts s 0 = length (filter (\<lambda>r. status r = s) rs))"
proof -
  define N where "N = length tasks"
  define b where "b = next_addr h"
  let ?h' = "snd (snd (run proc sch tasks self h))"
  let ?self' = "fst (snd (run proc sch tasks self h))"
  let ?W = "\<lambda>i. worker self proc sch i (tasks ! i)"
  define rs where "rs = map (\<lambda>i. records ?h' (b + i)) [0..<N]"
  note P = run_props [OF mw dist ids, where proc = proc and h = h, folded N_def b_def]
  have self': "total_tasks ?self' = N" "completed_tasks ?self' = N" "task_results ?self' = b + N"
    using P by simp_all
  have d: "dicts ?h' (b + N) = zip [0..<N] [b..<b + N]"
    using P by blast
  have vals: "map (\<lambda>(k, a). records ?h' a) (dicts ?h' (task_results ?self')) = rs"
    by (simp add: self' d values_of_zip rs_def)
  show ?thesis
  proof (cases "tasks = []")
    case True
    then have "rs = []" by (simp add: rs_def N_def)
    then have "get_statistics ?self' ?h' = NotExecuted"
      using vals by (simp add: get_statistics_def)
    then show ?thesis using True by (simp add: case_prod_beta)
  next
    case False
    then have ne: "rs \<noteq> []" by (simp add: rs_def N_def)
    have tr: "task_record ?self' ?h' i = Some (records ?h' (b + i))" if "i < N" for i
      using that by (simp add: task_record_def self' d map_of_zip_upt)
    have fields: "start_time (records ?h' (b + i)) = Some (started sch i)
        \<and> (\<exists>now. end_time (records ?h' (b + i)) = Some now)" if "i < N" for i
    proof -
      have "i < length tasks" using that by (simp add: N_def)
      from run_task_record [OF mw dist ids this, where proc = proc and h = h] tr [OF that]
      show ?thesis by (auto simp: worker_frame)
    qed
    have 1: "map (task_record ?self' ?h') [0..<N] = map Some rs"
      by (simp add: rs_def tr)
    have 2: "list_all (\<lambda>r. start_time r \<noteq> None \<and> end_time r \<noteq> None) rs"
      using fields by (auto simp: rs_def list_all_iff)
    have st: "map start_time rs = map Some (map (\<lambda>r. the (start_time r)) rs)"
      using fields by (auto simp: rs_def)
    have en: "map end_time rs = map Some (map (\<lambda>r. the (end_time r)) rs)"
      using fields by (auto simp: rs_def)
    have s0: "0 \<notin> set (map (\<lambda>r. the (start_time r)) rs)"
      using fields nz by (auto simp: rs_def N_def)
    obtain sts where "get_statistics ?self' ?h'
           = Statistics N N sts (Fin (Max (set (map (\<lambda>r. the (end_time r)) rs))
                - Min (set (map (\<lambda>r. the (start_time r)) rs))))"
      "sum_list (map snd sts) = length rs"
      "\<forall>s. dict_get sts s 0 = length (filter (\<lambda>r. status r = s) rs)"
      using get_statistics_started [OF vals ne st s0 en] self' by auto
    moreover have "length rs = N" by (simp add: rs_def)
    ultimately show ?thesis
      using False 1 2 unfolding N_def by (auto simp: case_prod_beta)
  qed
qed

theorem statistics_after_run_witness:
  "(case run MyTaskProcessor_process (at_once [1, 2, 0]) [fails_twice, quick, always_fails]
          (new_processor 3 2 5) (started_heap quick) of
      (res, self', h') \<Rightarrow>
        \<exists>rs sts. map (task_record self' h') [0..<length [fails_twice, quick, always_fails]]
              = map Some rs
          \<and> get_statistics self' h'
              = Statistics 3 3 sts
                  (Fin (Max (set (map (\<lambda>r. the (end_time r)) rs))
                        - Min (set (map (\<lambda>r. the (start_time r)) rs))))
          \<and> sum_list (map snd sts) = 3)"
proof -
  have 1: "0 < max_workers (new_processor 3 2 5)"
    by (simp add: new_processor_def)
  have 2: "distinct (order (at_once [1, 2, 0]))"
    by (simp add: at_once_def)
  have 3: "set (order (at_once [1, 2, 0])) = {..<length [fails_twice, quick, always_fails]}"
    by (auto simp: at_once_def)
  have 4: "\<forall>i < length [fails_twice, quick, always_fails]. started (at_once [1, 2, 0]) i \<noteq> 0"
    by (simp add: at_once_def)
  have ne: "[fails_twice, quick, always_fails] \<noteq> []"
    by simp
  have l: "length [fails_twice, quick, always_fails] = 3"
    by simp
  note T = statistics_after_run [where proc = MyTaskProcessor_process, OF 1 2 3 4,
        where h = "started_heap quick"]
  show ?thesis
    using T unfolding case_prod_beta if_not_P [OF ne] l by blast
qed

text \<open>
  Two evaluations. The statistics of a batch of three: two tasks completed, one failed,
  2.3 seconds from the first start to the last end. And the statistics of records of
  which none has started (here after \<open>run\<close> was refused for \<open>max_workers = 0\<close>): the total
  time is \<open>0 - inf\<close>, which the test against \<open>float('inf')\<close> lets through.
\<close>

lemma statistics_example:
  "(case run MyTaskProcessor_process (at_once [1, 2, 0]) [fails_twice, quick, always_fails]
          (new_processor 3 2 5) (started_heap quick) of
      (res, self', h') \<Rightarrow>
        get_statistics self' h'
          = Statistics 3 3 [(COMPLETED, 2), (FAILED, 1)] (Fin (23 / 10)))"
  by code_simp

lemma statistics_before_any_start:
  "(case run MyTaskProcessor_process (at_once [0]) [quick] (new_processor 0 2 5) (started_heap quick) of
      (res, self', h') \<Rightarrow>
        map_option start_time (task_record self' h' 0) = Some None
        \<and> get_statistics self' h' = Statistics 1 0 [(PENDING, 1)] NegInf)"
  by code_simp

text \<open>
  C8. The claim: for a batch of \<open>N\<close> tasks, \<open>run\<close> makes \<open>N\<close> records with the ids
  \<open>0..N-1\<close> in input order and returns an output of length \<open>N\<close> ordered by completion,
  with the produced value for each \<open>COMPLETED\<close> task and the placeholder for each
  \<open>FAILED\<close> or \<open>TIMEOUT\<close> task. The output is not always ordered by completion:
  \<open>as_completed\<close> hands the futures that have finished when it is called out as it
  iterates a set of them. Here two tasks finish 0.1 ms and 0.2 ms after their start, the
  main thread starts to collect 1 ms after it, the set is iterated with the second
  future first, and the value of the task that completed second is first in the output.
\<close>

theorem output_not_in_completion_order:
  "settles (new_processor 2 0 5) MyTaskProcessor_process (collecting_late [1, 0])
       [first_done, second_done] 0 = 100 + 1 / 10000
   \<and> settles (new_processor 2 0 5) MyTaskProcessor_process (collecting_late [1, 0])
       [first_done, second_done] 1 = 100 + 2 / 10000
   \<and> (case run MyTaskProcessor_process (collecting_late [1, 0]) [first_done, second_done]
            (new_processor 2 0 5) (started_heap first_done) of
        (res, self', h') \<Rightarrow>
          res = Inr [Some 2, Some 1]
          \<and> map_option status (task_record self' h' 0) = Some COMPLETED
          \<and> map_option status (task_record self' h' 1) = Some COMPLETED)"
  by code_simp

text \<open>
  C8, amended. For a batch of \<open>N\<close> tasks (and a retry limit that is not negative), \<open>run\<close>
  makes \<open>N\<close> records, under the ids \<open>0..N-1\<close> in this order, the record of id \<open>i\<close> for
  the \<open>i\<close>-th task. Every task ends \<open>COMPLETED\<close>, \<open>FAILED\<close> or \<open>TIMEOUT\<close>: \<open>COMPLETED\<close>, with
  the value that the work function returns in \<open>result\<close>, when an attempt within the
  retry limit returns after the attempts before it have failed; not \<open>COMPLETED\<close> when
  all attempts fail. \<open>run\<close> returns a list of length \<open>N\<close>, in the order in which
  \<open>as_completed\<close> hands the futures out, whose element for a task is the \<open>result\<close> of the
  task when it is \<open>COMPLETED\<close> and \<open>None\<close> otherwise. In that order every task occurs
  once; a future is handed out before another only if it had finished when the main
  thread began to collect or it finished no later than the other: the futures that
  finish after the collection has begun are in the order of their completion.
\<close>

theorem batch_records_and_output:
  fixes proc :: "('t, 'r) process" and h :: "('t, 'r) heap"
  assumes mw: "0 < max_workers self"
    and dist: "distinct (order sch)" and ids: "set (order sch) = {..<length tasks}"
    and R: "0 \<le> retry self"
  shows "case run proc sch tasks self h of
           (res, self', h') \<Rightarrow>
             map fst (dicts h' (task_results self')) = [0..<length tasks]
             \<and> (\<forall>i < length tasks. \<exists>r. task_record self' h' i = Some r
                    \<and> task_id r = i \<and> original_task r = tasks ! i
                    \<and> (status r = COMPLETED \<or> status r = FAILED \<or> status r = TIMEOUT)
                    \<and> (\<forall>a d v. int a \<le> retry self
                           \<and> (\<forall>j < a. \<exists>d e. proc i j (tasks ! i) = Raises d e)
                           \<and> proc i a (tasks ! i) = Returns d v
                           \<longrightarrow> status r = COMPLETED \<and> result r = v)
                    \<and> ((\<forall>j \<le> nat (retry self). \<exists>d e. proc i j (tasks ! i) = Raises d e)
                           \<longrightarrow> status r \<noteq> COMPLETED))
             \<and> (\<exists>out. res = Inr out \<and> length out = length tasks
                    \<and> (\<forall>k < length tasks.
                          \<exists>r. task_record self' h' (handed_out self proc sch tasks ! k) = Some r
                            \<and> out ! k = (if status r = COMPLETED then result r else None)))
             \<and> distinct (handed_out self proc sch tasks)
             \<and> set (handed_out self proc sch tasks) = {..<length tasks}
             \<and> (\<forall>k1 k2. k1 < k2 \<and> k2 < length tasks \<longrightarrow>
                    settles self proc sch tasks (handed_out self proc sch tasks ! k1)
                      \<le> max (collecting_at sch)
                            (settles self proc sch tasks (handed_out self proc sch tasks ! k2)))"
proof -
  let ?W = "\<lambda>i. worker self proc sch i (tasks ! i)"
  let ?h' = "snd (snd (run proc sch tasks self h))"
  let ?self' = "fst (snd (run proc sch tasks self h))"
  let ?ho = "handed_out self proc sch tasks"
  note P = run_props [OF mw dist ids, where proc = proc and h = h]
  have len: "length (order sch) = length tasks"
    using dist ids by (metis card_lessThan distinct_card)
  have ho_len: "length ?ho = length tasks"
    by (simp add: handed_out_def len)
  have ho_set: "set ?ho = {..<length tasks}"
    by (simp add: handed_out_def ids)
  have ho_dist: "distinct ?ho"
    by (simp add: handed_out_def dist hand_out_distinct)
  have 1: "map fst (dicts ?h' (task_results ?self')) = [0..<length tasks]"
    using P by simp
  have rec: "\<exists>now. task_record ?self' ?h' i
       = Some ((obj (fst (?W i)))\<lparr>result := output_of (snd (?W i)), status := status_of (snd (?W i)),
            error_message := message_of (snd (?W i)) None, end_time := Some now\<rparr>)"
    if "i < length tasks" for i
    using run_task_record [OF mw dist ids that, where proc = proc and h = h] by blast
  have 2: "\<exists>r. task_record ?self' ?h' i = Some r
             \<and> task_id r = i \<and> original_task r = tasks ! i
             \<and> (status r = COMPLETED \<or> status r = FAILED \<or> status r = TIMEOUT)
             \<and> (\<forall>a d v. int a \<le> retry self
                    \<and> (\<forall>j < a. \<exists>d e. proc i j (tasks ! i) = Raises d e)
                    \<and> proc i a (tasks ! i) = Returns d v
                    \<longrightarrow> status r = COMPLETED \<and> result r = v)
             \<and> ((\<forall>j \<le> nat (retry self). \<exists>d e. proc i j (tasks ! i) = Raises d e)
                    \<longrightarrow> status r \<noteq> COMPLETED)"
    if i: "i < length tasks" for i
  proof -
    have succ: "snd (?W i) = Inr v"
      if "int a \<le> retry self" "\<forall>j < a. \<exists>d e. proc i j (tasks ! i) = Raises d e"
        "proc i a (tasks ! i) = Returns d v" for a d v
      using worker_scenario(1) [of a proc i "tasks ! i" self sch] that by simp
    have fail: "\<exists>e. snd (?W i) = Inl e"
      if f: "\<forall>j \<le> nat (retry self). \<exists>d e. proc i j (tasks ! i) = Raises d e"
    proof -
      obtain d e where l: "proc i (nat (retry self)) (tasks ! i) = Raises d e"
        using f by blast
      have "snd (?W i) = Inl e"
        using worker_scenario(1) [of "nat (retry self)" proc i "tasks ! i" self sch] f l R
        by simp
      then show ?thesis by blast
    qed
    obtain now where r: "task_record ?self' ?h' i
       = Some ((obj (fst (?W i)))\<lparr>result := output_of (snd (?W i)), status := status_of (snd (?W i)),
            error_message := message_of (snd (?W i)) None, end_time := Some now\<rparr>)"
      using rec [OF i] by blast
    have a: "status_of (snd (?W i)) = COMPLETED \<and> output_of (snd (?W i)) = v"
      if "int a \<le> retry self" "\<forall>j < a. \<exists>d e. proc i j (tasks ! i) = Raises d e"
        "proc i a (tasks ! i) = Returns d v" for a d v
      using succ [OF that] by (simp add: status_of_def output_of_def)
    have b: "status_of (snd (?W i)) \<noteq> COMPLETED"
      if "\<forall>j \<le> nat (retry self). \<exists>d e. proc i j (tasks ! i) = Raises d e"
      using fail [OF that] by (auto simp: status_of_def split: exn.splits)
    show ?thesis
      unfolding r using status_of_cases [of "snd (?W i)"] a b
      by (simp add: worker_frame) blast
  qed
  have out: "fst (run proc sch tasks self h) = Inr (map (\<lambda>i. output_of (snd (?W i))) ?ho)"
    using P by blast
  have 3: "\<exists>r. task_record ?self' ?h' (?ho ! k) = Some r
             \<and> map (\<lambda>i. output_of (snd (?W i))) ?ho ! k
                  = (if status r = COMPLETED then result r else None)"
    if "k < length tasks" for k
  proof -
    have "?ho ! k \<in> set ?ho" using that ho_len by simp
    then have i: "?ho ! k < length tasks" using ho_set by simp
    show ?thesis
      using rec [OF i] that ho_len output_of_status [of "snd (?W (?ho ! k))"]
      by auto
  qed
  have 4: "settles self proc sch tasks (?ho ! k1)
      \<le> max (collecting_at sch) (settles self proc sch tasks (?ho ! k2))"
    if "k1 < k2" "k2 < length tasks" for k1 k2
    unfolding handed_out_def
    using hand_out_ordered [of k1 k2 "order sch" "settles self proc sch tasks" "collecting_at sch"]
      that len by simp
  show ?thesis
    using 1 2 3 4 out ho_len ho_dist ho_set by (simp add: case_prod_beta)
qed

theorem batch_records_and_output_witness:
  "(case run MyTaskProcessor_process (at_once [1, 2, 0]) [fails_twice, quick, always_fails]
          (new_processor 3 2 5) (started_heap quick) of
      (res, self', h') \<Rightarrow>
        map fst (dicts h' (task_results self')) = [0..<length [fails_twice, quick, always_fails]]
        \<and> (\<exists>r. task_record self' h' 0 = Some r \<and> status r = COMPLETED \<and> result r = Some 7)
        \<and> (\<exists>r. task_record self' h' 2 = Some r \<and> status r \<noteq> COMPLETED)
        \<and> (\<exists>out. res = Inr out \<and> length out = length [fails_twice, quick, always_fails]))
   \<and> distinct (handed_out (new_processor 3 2 5) MyTaskProcessor_process (at_once [1, 2, 0])
         [fails_twice, quick, always_fails])
   \<and> 0 < max_workers (new_processor 3 2 5) \<and> 0 \<le> retry (new_processor 3 2 5)"
proof -
  let ?tasks = "[fails_twice, quick, always_fails]"
  let ?R = "run MyTaskProcessor_process (at_once [1, 2, 0]) ?tasks
          (new_processor 3 2 5) (started_heap quick)"
  have 1: "0 < max_workers (new_processor 3 2 5)"
    by (simp add: new_processor_def)
  have 2: "distinct (order (at_once [1, 2, 0]))"
    by (simp add: at_once_def)
  have 3: "set (order (at_once [1, 2, 0])) = {..<length ?tasks}"
    by (auto simp: at_once_def)
  have 4: "0 \<le> retry (new_processor 3 2 5)"
    by (simp add: new_processor_def)
  note T = batch_records_and_output [where proc = MyTaskProcessor_process, OF 1 2 3 4,
        where h = "started_heap quick"]
  note T' = T [unfolded case_prod_beta]
  note c1 = T' [THEN conjunct1]
  note c2 = T' [THEN conjunct2, THEN conjunct1]
  note c3 = T' [THEN conjunct2, THEN conjunct2, THEN conjunct1]
  note c4 = T' [THEN conjunct2, THEN conjunct2, THEN conjunct2, THEN conjunct1]
  from c3 obtain out where out: "fst ?R = Inr out" "length out = length ?tasks"
    by blast
  have f0: "MyTaskProcessor_process 0 j (?tasks ! 0) = Raises (1 / 2) (ValueError ''random error'')"
    if "j < 2" for j
    using that by (simp add: MyTaskProcessor_process_def fails_twice_def)
  have s0: "MyTaskProcessor_process 0 2 (?tasks ! 0) = Returns 1 (Some 7)"
    by (simp add: MyTaskProcessor_process_def fails_twice_def)
  have "0 < length ?tasks" by simp
  with c2 obtain r0 where r0: "task_record (fst (snd ?R)) (snd (snd ?R)) 0 = Some r0"
    and p0: "\<forall>a d v. int a \<le> retry (new_processor 3 2 5)
        \<and> (\<forall>j < a. \<exists>d e. MyTaskProcessor_process 0 j (?tasks ! 0) = Raises d e)
        \<and> MyTaskProcessor_process 0 a (?tasks ! 0) = Returns d v
        \<longrightarrow> status r0 = COMPLETED \<and> result r0 = v"
    by blast
  have "int 2 \<le> retry (new_processor 3 2 5)"
    by (simp add: new_processor_def)
  moreover have "\<forall>j < 2. \<exists>d e. MyTaskProcessor_process 0 j (?tasks ! 0) = Raises d e"
    using f0 by blast
  ultimately have "int 2 \<le> retry (new_processor 3 2 5)
      \<and> (\<forall>j < 2. \<exists>d e. MyTaskProcessor_process 0 j (?tasks ! 0) = Raises d e)
      \<and> MyTaskProcessor_process 0 2 (?tasks ! 0) = Returns 1 (Some 7)"
    using s0 by blast
  with p0 have a0: "status r0 = COMPLETED \<and> result r0 = Some 7"
    by blast
  have f2: "MyTaskProcessor_process 2 j (?tasks ! 2) = Raises (1 / 4) (ValueError ''random error'')"
    for j
    by (simp add: MyTaskProcessor_process_def always_fails_def)
  have "2 < length ?tasks" by simp
  with c2 obtain r2 where r2: "task_record (fst (snd ?R)) (snd (snd ?R)) 2 = Some r2"
    and p2: "(\<forall>j \<le> nat (retry (new_processor 3 2 5)).
        \<exists>d e. MyTaskProcessor_process 2 j (?tasks ! 2) = Raises d e) \<longrightarrow> status r2 \<noteq> COMPLETED"
    by blast
  have a2: "status r2 \<noteq> COMPLETED"
    using p2 f2 by blast
  show ?thesis
    unfolding case_prod_beta using c1 c4 1 4 out r0 a0 r2 a2 by blast
qed

text \<open>
  An evaluation: three tasks picked up at the same time, which settle after 2.3 s, 0.5 s
  and 1.05 s; the output is in the order of their completion.
\<close>

lemma batch_example:
  "handed_out (new_processor 3 2 5) MyTaskProcessor_process (at_once [0, 1, 2])
       [fails_twice, quick, always_fails] = [1, 2, 0]
   \<and> map (settles (new_processor 3 2 5) MyTaskProcessor_process (at_once [0, 1, 2])
       [fails_twice, quick, always_fails]) [0, 1, 2] = [100 + 23 / 10, 100 + 1 / 2, 100 + 21 / 20]
   \<and> (case run MyTaskProcessor_process (at_once [0, 1, 2]) [fails_twice, quick, always_fails]
          (new_processor 3 2 5) (started_heap quick) of
      (res, self', h') \<Rightarrow>
        res = Inr [Some 1, None, Some 7]
        \<and> map (map_option status \<circ> task_record self' h') [0, 1, 2]
            = [Some COMPLETED, Some COMPLETED, Some FAILED])"
  by code_simp

text \<open>
  C9. When the attempts \<open>0, \<dots>, k - 1\<close> of a call of \<open>_run_with_retry\<close> fail and attempt \<open>k\<close>
  is the last one (it succeeds, or \<open>k\<close> is the retry limit), the thread does this and
  nothing else beside its assignments: after each failed attempt \<open>a < k\<close> it sleeps
  \<open>(a + 1) / 10\<close> seconds and then makes attempt \<open>a + 1\<close>; after attempt \<open>k\<close> it neither
  sleeps nor calls again, and the call ends with the value of attempt \<open>k\<close> or, for
  \<open>k\<close> the retry limit, with its exception. (Seconds are rational numbers here; the
  code multiplies the float \<open>0.1\<close>.)
\<close>

theorem backoff_between_attempts:
  fixes proc :: "('t, 'r) process" and h :: "('t, 'r) heap"
  assumes look: "map_of (dicts h (task_results self)) i = Some a"
    and kR: "int k \<le> retry self"
    and fails: "\<forall>j<k. \<exists>d e. proc i j (original_task (records h a)) = Raises d e"
    and last: "int k = retry self \<or> (\<exists>d v. proc i k (original_task (records h a)) = Returns d v)"
  shows "case run_with_retry self proc t i h of
           (fut, h') \<Rightarrow>
             filter (\<lambda>e. \<not> is_Write e) (map snd (drop (length (trace h)) (trace h')))
               = concat (map (\<lambda>j. [Invoke j, Sleep (1 / 10 * (of_nat j + 1))]) [0..<k]) @ [Invoke k]
             \<and> outcome fut =
                 (case proc i k (original_task (records h a)) of
                    Returns d v \<Rightarrow> Inr v | Raises d e \<Rightarrow> Inl e)"
proof -
  let ?task = "original_task (records h a)"
  let ?th = "assign (\<lambda>r. r\<lparr>status := RUNNING\<rparr>)
               (assign (\<lambda>r. r\<lparr>start_time := Some t\<rparr>) (thread_on a t h))"
  let ?B = "retry_body self proc i (thread_on a t h)"
  have B: "?B = retry_loop (retry self) (proc i) ?task [0..<nat (retry self + 1)] ?th"
    by (simp add: retry_body_def)
  have f: "\<And>j. 0 \<le> j \<Longrightarrow> j < k \<Longrightarrow> \<exists>d e. proc i j ?task = Raises d e"
    using fails by blast
  note S = retry_loop_scenario [of 0 k "proc i" ?task "retry self" ?th, OF f last _ kR, folded B]
  have ev: "filter (\<lambda>e. \<not> is_Write e) (events (fst ?B))
      = concat (map (\<lambda>j. [Invoke j, Sleep (1 / 10 * (of_nat j + 1))]) [0..<k]) @ [Invoke k]"
    and out: "snd ?B = (case proc i k ?task of Returns d v \<Rightarrow> Inr v | Raises d e \<Rightarrow> Inl e)"
    using S by simp_all
  have "map snd (map (Pair a) (events (fst ?B))) = events (fst ?B)"
    by (simp add: o_def)
  then show ?thesis
    using ev out
    by (simp add: run_with_retry_found [OF look] o_def)
qed

theorem backoff_between_attempts_witness:
  "(case run_with_retry ((new_processor 3 2 5)\<lparr>task_results := 1\<rparr>) MyTaskProcessor_process 100 0
          (one_task_heap always_fails) of
      (fut, h') \<Rightarrow>
        filter (\<lambda>e. \<not> is_Write e)
            (map snd (drop (length (trace (one_task_heap always_fails :: (nat \<Rightarrow> nat attempt, nat) heap)))
               (trace h')))
          = [Invoke 0, Sleep (1 / 10), Invoke 1, Sleep (2 / 10), Invoke 2]
        \<and> outcome fut = Inl (ValueError ''random error''))"
proof -
  let ?self = "(new_processor 3 2 5)\<lparr>task_results := 1\<rparr>"
  let ?h = "one_task_heap always_fails :: (nat \<Rightarrow> nat attempt, nat) heap"
  have 1: "map_of (dicts ?h (task_results ?self)) 0 = Some 0"
    by (simp add: one_task_heap_def new_dict_def new_record_def empty_heap_def)
  have 2: "int 2 \<le> retry ?self"
    by (simp add: new_processor_def)
  have t: "original_task (records ?h 0) = always_fails"
    by (simp add: one_task_heap_def new_dict_def new_record_def empty_heap_def TaskResult_init_def)
  have c: "MyTaskProcessor_process 0 j (original_task (records ?h 0))
      = Raises (1 / 4) (ValueError ''random error'')" for j
    by (simp add: t MyTaskProcessor_process_def always_fails_def)
  have 3: "\<forall>j<2. \<exists>d e. MyTaskProcessor_process 0 j (original_task (records ?h 0)) = Raises d e"
    using c by blast
  have 4: "int 2 = retry ?self
      \<or> (\<exists>d v. MyTaskProcessor_process 0 2 (original_task (records ?h 0)) = Returns d v)"
    by (simp add: new_processor_def)
  have u: "[0..<2] = [0, 1]"
    by (simp add: upt_rec)
  show ?thesis
    using backoff_between_attempts [where proc = MyTaskProcessor_process and i = 0 and k = 2
        and t = 100, OF 1 2 3 4]
    by (simp add: c u)
qed

text \<open>
  C10. The claim: a \<open>COMPLETED\<close> task whose work function produces \<open>None\<close> has the same
  element in the output of \<open>run\<close> as a \<open>FAILED\<close> or \<open>TIMEOUT\<close> task, and only the status
  field of the record distinguishes them. The first part holds; the status is not the
  only field that differs: the record of the failed task has an error message, that of
  the completed task has none (and here their retry counts differ too).
\<close>

theorem status_not_the_only_difference:
  "(case run MyTaskProcessor_process (at_once [0, 1]) [returns_none, always_fails]
          (new_processor 3 2 5) (started_heap quick) of
      (res, self', h') \<Rightarrow>
        res = Inr [None, None]
        \<and> map_option status (task_record self' h' 0) = Some COMPLETED
        \<and> map_option status (task_record self' h' 1) = Some FAILED
        \<and> map_option error_message (task_record self' h' 0) = Some None
        \<and> map_option error_message (task_record self' h' 1) = Some (Some ''random error'')
        \<and> map_option retry_count (task_record self' h' 0) = Some 0
        \<and> map_option retry_count (task_record self' h' 1) = Some 2)"
  by code_simp

text \<open>
  C10, amended. A task that is \<open>COMPLETED\<close> with the value \<open>None\<close>, returned by its first
  attempt or by a later one within the retry limit, and a task that fails in every
  attempt have the same element in the output of \<open>run\<close>, \<open>None\<close>, and \<open>None\<close> in the
  \<open>result\<close> of their records; the records differ in the status (\<open>COMPLETED\<close> against
  \<open>FAILED\<close> or \<open>TIMEOUT\<close>) and in the error message (none against one).
\<close>

theorem none_result_indistinguishable:
  fixes proc :: "('t, 'r) process" and h :: "('t, 'r) heap"
  assumes mw: "0 < max_workers self"
    and dist: "distinct (order sch)" and ids: "set (order sch) = {..<length tasks}"
    and i: "i < length tasks" and j: "j < length tasks"
    and R: "0 \<le> retry self"
    and kR: "int k \<le> retry self"
    and before: "\<forall>a < k. \<exists>d e. proc i a (tasks ! i) = Raises d e"
    and succ: "proc i k (tasks ! i) = Returns d None"
    and fails: "\<forall>a \<le> nat (retry self). \<exists>d e. proc j a (tasks ! j) = Raises d e"
  shows "case run proc sch tasks self h of
           (res, self', h') \<Rightarrow>
             \<exists>out ki kj ri rj. res = Inr out
               \<and> ki < length out \<and> kj < length out
               \<and> handed_out self proc sch tasks ! ki = i
               \<and> handed_out self proc sch tasks ! kj = j
               \<and> out ! ki = None \<and> out ! kj = None
               \<and> task_record self' h' i = Some ri \<and> task_record self' h' j = Some rj
               \<and> result ri = None \<and> result rj = None
               \<and> status ri = COMPLETED \<and> (status rj = FAILED \<or> status rj = TIMEOUT)
               \<and> error_message ri = None \<and> error_message rj \<noteq> None"
proof -
  let ?W = "\<lambda>i. worker self proc sch i (tasks ! i)"
  let ?h' = "snd (snd (run proc sch tasks self h))"
  let ?self' = "fst (snd (run proc sch tasks self h))"
  let ?ho = "handed_out self proc sch tasks"
  note P = run_props [OF mw dist ids, where proc = proc and h = h]
  have len: "length (order sch) = length tasks"
    using dist ids by (metis card_lessThan distinct_card)
  have ho_len: "length ?ho = length tasks"
    by (simp add: handed_out_def len)
  have ho_set: "set ?ho = {..<length tasks}"
    by (simp add: handed_out_def ids)
  obtain ki where ki: "ki < length ?ho" "?ho ! ki = i"
    using i ho_set by (metis in_set_conv_nth lessThan_iff)
  obtain kj where kj: "kj < length ?ho" "?ho ! kj = j"
    using j ho_set by (metis in_set_conv_nth lessThan_iff)
  have oi: "snd (?W i) = Inr None"
    using worker_scenario(1) [of k proc i "tasks ! i" self sch] before succ kR by simp
  obtain d' e where l: "proc j (nat (retry self)) (tasks ! j) = Raises d' e"
    using fails by blast
  have oj: "snd (?W j) = Inl e"
    using worker_scenario(1) [of "nat (retry self)" proc j "tasks ! j" self sch] fails l R
    by simp
  obtain ni where ri: "task_record ?self' ?h' i
       = Some ((obj (fst (?W i)))\<lparr>result := output_of (snd (?W i)), status := status_of (snd (?W i)),
            error_message := message_of (snd (?W i)) None, end_time := Some ni\<rparr>)"
    using run_task_record [OF mw dist ids i, where proc = proc and h = h] by blast
  obtain nj where rj: "task_record ?self' ?h' j
       = Some ((obj (fst (?W j)))\<lparr>result := output_of (snd (?W j)), status := status_of (snd (?W j)),
            error_message := message_of (snd (?W j)) None, end_time := Some nj\<rparr>)"
    using run_task_record [OF mw dist ids j, where proc = proc and h = h] by blast
  have out: "fst (run proc sch tasks self h) = Inr (map (\<lambda>i. output_of (snd (?W i))) ?ho)"
    using P by blast
  have sj: "status_of (Inl e :: exn + 'r option) = FAILED \<or> status_of (Inl e :: exn + 'r option) = TIMEOUT"
    by (simp add: status_of_def split: exn.splits)
  have mj: "message_of (Inl e :: exn + 'r option) None \<noteq> None"
    by (simp add: message_of_def split: exn.splits)
  have "fst (run proc sch tasks self h) = Inr (map (\<lambda>i. output_of (snd (?W i))) ?ho)
      \<and> ki < length (map (\<lambda>i. output_of (snd (?W i))) ?ho)
      \<and> kj < length (map (\<lambda>i. output_of (snd (?W i))) ?ho)
      \<and> ?ho ! ki = i \<and> ?ho ! kj = j
      \<and> map (\<lambda>i. output_of (snd (?W i))) ?ho ! ki = None
      \<and> map (\<lambda>i. output_of (snd (?W i))) ?ho ! kj = None"
    using out ki kj by (simp add: oi oj output_of_def)
  moreover have "\<exists>ri rj. task_record ?self' ?h' i = Some ri \<and> task_record ?self' ?h' j = Some rj
      \<and> result ri = None \<and> result rj = None
      \<and> status ri = COMPLETED \<and> (status rj = FAILED \<or> status rj = TIMEOUT)
      \<and> error_message ri = None \<and> error_message rj \<noteq> None"
    unfolding ri rj using sj mj
    by (simp add: oi oj output_of_def status_of_def message_of_def)
  ultimately show ?thesis
    unfolding case_prod_beta by blast
qed

theorem none_result_indistinguishable_witness:
  "(case run MyTaskProcessor_process (at_once [0, 1]) [none_after_retry, always_fails]
          (new_processor 3 2 5) (started_heap quick) of
      (res, self', h') \<Rightarrow>
        \<exists>out ki kj ri rj. res = Inr out
          \<and> ki < length out \<and> kj < length out
          \<and> handed_out (new_processor 3 2 5) MyTaskProcessor_process (at_once [0, 1])
               [none_after_retry, always_fails] ! ki = 0
          \<and> handed_out (new_processor 3 2 5) MyTaskProcessor_process (at_once [0, 1])
               [none_after_retry, always_fails] ! kj = 1
          \<and> out ! ki = None \<and> out ! kj = None
          \<and> task_record self' h' 0 = Some ri \<and> task_record self' h' 1 = Some rj
          \<and> result ri = None \<and> result rj = None
          \<and> status ri = COMPLETED \<and> (status rj = FAILED \<or> status rj = TIMEOUT)
          \<and> error_message ri = None \<and> error_message rj \<noteq> None)"
proof -
  have 1: "0 < max_workers (new_processor 3 2 5)"
    by (simp add: new_processor_def)
  have 2: "distinct (order (at_once [0, 1]))"
    by (simp add: at_once_def)
  have 3: "set (order (at_once [0, 1])) = {..<length [none_after_retry, always_fails]}"
    by (auto simp: at_once_def)
  have 4: "0 < length [none_after_retry, always_fails]" "1 < length [none_after_retry, always_fails]"
    by simp_all
  have 5: "0 \<le> retry (new_processor 3 2 5)" "int 1 \<le> retry (new_processor 3 2 5)"
    by (simp_all add: new_processor_def)
  have b: "MyTaskProcessor_process 0 a ([none_after_retry, always_fails] ! 0)
      = Raises (1 / 4) (ValueError ''random error'')" if "a < 1" for a
    using that by (simp add: MyTaskProcessor_process_def none_after_retry_def)
  have 6: "\<forall>a < 1. \<exists>d e. MyTaskProcessor_process 0 a ([none_after_retry, always_fails] ! 0)
      = Raises d e"
    using b by blast
  have 7: "MyTaskProcessor_process 0 1 ([none_after_retry, always_fails] ! 0)
      = Returns (1 / 10) None"
    by (simp add: MyTaskProcessor_process_def none_after_retry_def)
  have c: "MyTaskProcessor_process 1 a ([none_after_retry, always_fails] ! 1)
        = Raises (1 / 4) (ValueError ''random error'')" for a
    by (simp add: MyTaskProcessor_process_def always_fails_def)
  have 8: "\<forall>a \<le> nat (retry (new_processor 3 2 5)). \<exists>d e.
      MyTaskProcessor_process 1 a ([none_after_retry, always_fails] ! 1) = Raises d e"
    using c by blast
  show ?thesis
    by (rule none_result_indistinguishable [where proc = MyTaskProcessor_process
        and tasks = "[none_after_retry, always_fails]" and i = 0 and j = 1 and k = 1,
        OF 1 2 3 4 5 6 7 8])
qed

end
